theory Spec2Isabelle
  imports Complex_Main "HOL-Library.Signed_Division"
begin

section \<open>Blocks, extents and the shape catalogue\<close>

text \<open>
  A \<open>block\<close> of the source is the struct \<open>{ int y, x; }\<close>; it is modelled as the pair
  \<open>(y, x)\<close>, row first. Coordinates and cell colours are C++ \<open>int\<close>s that never leave the
  range of the board, so they are modelled as unbounded integers.
\<close>

type_synonym block = "int \<times> int"

text \<open>\<open>block::operator+\<close>.\<close>

definition block_add :: "block \<Rightarrow> block \<Rightarrow> block" where
  "block_add a b = (fst a + fst b, snd a + snd b)"

record extent =
  y_min :: int
  y_max :: int
  x_min :: int
  x_max :: int

type_synonym shape_t = "block list"

text \<open>
  The table \<open>shapes_\<close> of the engine with rotation states (right-handed Nintendo rotation
  system): one list of rotation states per kind, in the order I, O, J, L, S, Z, T.
\<close>

definition shapes :: "shape_t list list" where
  "shapes =
    [ [ [(0, -2), (0, -1), (0, 0), (0, 1)],
        [(-2, 0), (-1, 0), (0, 0), (1, 0)] ],
      [ [(0, 0), (0, 1), (1, 0), (1, 1)] ],
      [ [(1, 1), (0, 1), (0, 0), (0, -1)],
        [(1, -1), (1, 0), (0, 0), (-1, 0)],
        [(-1, -1), (0, -1), (0, 0), (0, 1)],
        [(-1, 1), (-1, 0), (0, 0), (1, 0)] ],
      [ [(1, -1), (0, -1), (0, 0), (0, 1)],
        [(-1, -1), (-1, 0), (0, 0), (1, 0)],
        [(-1, 1), (0, 1), (0, 0), (0, -1)],
        [(1, 1), (1, 0), (0, 0), (-1, 0)] ],
      [ [(-1, 0), (0, 0), (0, 1), (1, 1)],
        [(0, 1), (0, 0), (1, 0), (1, -1)] ],
      [ [(-1, 1), (0, 1), (0, 0), (1, 0)],
        [(1, 1), (1, 0), (0, 0), (0, -1)] ],
      [ [(0, 0), (-1, 0), (0, -1), (0, 1)],
        [(0, 0), (-1, 0), (1, 0), (0, 1)],
        [(0, 0), (0, -1), (1, 0), (0, 1)],
        [(0, 0), (0, -1), (1, 0), (-1, 0)] ] ]"

definition n_shapes :: nat where
  "n_shapes = length shapes"

definition invisible_lines :: int where
  "invisible_lines = 2"

text \<open>
  \<open>move_ticks_ = std::floor(tick_times_ * move_intervals_)\<close> with \<open>tick_times_ = 100\<close> and
  \<open>move_intervals_ = 0.5\<close>: the product is exactly 50.
\<close>

definition move_ticks :: int where
  "move_ticks = 50"

section \<open>The piece\<close>

text \<open>
  The struct \<open>piece\<close>. Its back pointer \<open>t\<close> only serves to reach the constant table
  \<open>shapes_\<close> and is left out.
\<close>

record piece =
  shape :: nat
  location :: block
  rotation :: int
  color :: int

text \<open>
  \<open>piece::get_rotated\<close>. The operator \<open>%\<close> of C++ truncates towards zero; that is
  \<open>smod\<close>.
\<close>

definition get_rotated :: "bool \<Rightarrow> piece \<Rightarrow> int" where
  "get_rotated ccw p =
     (let rot = rotation p;
          rot = (if ccw then rot - 1 else rot + 1);
          n_rot = int (length (shapes ! shape p))
      in (rot + n_rot) smod n_rot)"

text \<open>\<open>piece::rotate\<close>.\<close>

definition piece_rotate :: "bool \<Rightarrow> piece \<Rightarrow> piece" where
  "piece_rotate ccw p = p\<lparr>rotation := get_rotated ccw p\<rparr>"

definition get_shape :: "piece \<Rightarrow> shape_t" where
  "get_shape p = shapes ! shape p ! nat (rotation p)"

definition get_rotated_shape :: "bool \<Rightarrow> piece \<Rightarrow> shape_t" where
  "get_rotated_shape ccw p = shapes ! shape p ! nat (get_rotated ccw p)"

text \<open>
  \<open>piece::get_extent\<close> starts from block 0 and folds the remaining blocks in. The source
  assumes at least one block in a shape (every entry of the table has four); the model
  returns the zero extent for an empty shape.
\<close>

definition extent_step :: "block \<Rightarrow> extent \<Rightarrow> extent" where
  "extent_step b e =
     \<lparr> y_min = min (y_min e) (fst b), y_max = max (y_max e) (fst b),
       x_min = min (x_min e) (snd b), x_max = max (x_max e) (snd b) \<rparr>"

definition shape_extent :: "shape_t \<Rightarrow> extent" where
  "shape_extent sh =
     (case sh of
        [] \<Rightarrow> \<lparr> y_min = 0, y_max = 0, x_min = 0, x_max = 0 \<rparr>
      | b0 # rest \<Rightarrow>
          fold extent_step rest
            \<lparr> y_min = fst b0, y_max = fst b0, x_min = snd b0, x_max = snd b0 \<rparr>)"

definition get_extent :: "piece \<Rightarrow> extent" where
  "get_extent p = shape_extent (get_shape p)"

section \<open>The engine state\<close>

text \<open>
  The data members of class \<open>tetris\<close>. \<open>score_\<close> is a \<open>std::size_t\<close> that grows by at
  most four per locked piece; it is modelled as a natural number.
\<close>

record tetris =
  height :: int
  width :: int
  board :: "int list list"
  curr_piece :: piece
  tick_cnt :: int
  prev_shape :: int
  score :: nat

definition board_height :: "tetris \<Rightarrow> int" where
  "board_height s = height s + invisible_lines"

section \<open>Board access\<close>

text \<open>
  \<open>board_\<close> is a \<open>std::vector<std::vector<int>>\<close>, a list of rows. The source indexes
  it with \<open>operator[]\<close> and never checks the index itself: an access outside the vector
  is undefined behaviour. The model reads with \<open>!\<close> and writes with \<open>list_update\<close>;
  the theorems below are stated for states that satisfy the engine invariant
  \<open>state_ok\<close>, in which every access the engine makes is inside the board.
\<close>

type_synonym board_t = "int list list"

text \<open>Reading \<open>board_[b.y][b.x]\<close> and the assignment \<open>board_[b.y][b.x] = v\<close>.\<close>

definition cell_at :: "board_t \<Rightarrow> block \<Rightarrow> int" where
  "cell_at b p = b ! nat (fst p) ! nat (snd p)"

definition set_cell :: "block \<Rightarrow> int \<Rightarrow> board_t \<Rightarrow> board_t" where
  "set_cell p v b = b[nat (fst p) := (b ! nat (fst p))[nat (snd p) := v]]"

definition check_boundary :: "tetris \<Rightarrow> block \<Rightarrow> int \<Rightarrow> int \<Rightarrow> bool" where
  "check_boundary s b y x =
     (let yy = fst b + y; xx = snd b + x
      in 0 \<le> yy \<and> yy < board_height s \<and> 0 \<le> xx \<and> xx < width s)"

definition board_cell :: "tetris \<Rightarrow> block \<Rightarrow> int \<Rightarrow> int \<Rightarrow> int" where
  "board_cell s b y x = cell_at (board s) (fst b + y, snd b + x)"

text \<open>\<open>tetris::update_piece\<close>: the loop over the blocks of the current piece.\<close>

definition update_piece :: "int \<Rightarrow> tetris \<Rightarrow> tetris" where
  "update_piece c s =
     (let loc = location (curr_piece s)
      in s\<lparr>board := fold (\<lambda>blk. set_cell (block_add loc blk) c)
                        (get_shape (curr_piece s)) (board s)\<rparr>)"

section \<open>Moving and rotating\<close>

text \<open>
  The checking loop shared by \<open>can_move\<close> and \<open>can_rotate\<close>: it leaves with
  \<open>false\<close> at the first block that is out of bounds or on a non-zero cell. The boundary
  test comes first, so the board is only read inside.
\<close>

fun blocks_free :: "tetris \<Rightarrow> block \<Rightarrow> int \<Rightarrow> int \<Rightarrow> shape_t \<Rightarrow> bool" where
  "blocks_free s loc y x [] = True"
| "blocks_free s loc y x (blk # rest) =
     (let block_loc = block_add loc blk
      in if \<not> check_boundary s block_loc y x \<or> board_cell s block_loc y x \<noteq> 0
         then False
         else blocks_free s loc y x rest)"

definition can_move :: "int \<Rightarrow> int \<Rightarrow> tetris \<Rightarrow> bool \<times> tetris" where
  "can_move y x s =
     (let s1 = update_piece 0 s;
          movable = blocks_free s1 (location (curr_piece s1)) y x (get_shape (curr_piece s1));
          s2 = update_piece (color (curr_piece s1)) s1
      in (movable, s2))"

definition move_piece :: "int \<Rightarrow> int \<Rightarrow> tetris \<Rightarrow> bool \<times> tetris" where
  "move_piece y x s =
     (let (movable, s1) = can_move y x s
      in if \<not> movable then (False, s1)
         else
           let s2 = update_piece 0 s1;
               loc = location (curr_piece s2);
               s3 = s2\<lparr>curr_piece := (curr_piece s2)\<lparr>location := (fst loc + y, snd loc + x)\<rparr>\<rparr>
           in (True, update_piece (color (curr_piece s3)) s3))"

definition can_rotate :: "bool \<Rightarrow> tetris \<Rightarrow> bool \<times> tetris" where
  "can_rotate ccw s =
     (let s1 = update_piece 0 s;
          rotatable = blocks_free s1 (location (curr_piece s1)) 0 0
                        (get_rotated_shape ccw (curr_piece s1));
          s2 = update_piece (color (curr_piece s1)) s1
      in (rotatable, s2))"

definition rotate_piece :: "bool \<Rightarrow> tetris \<Rightarrow> bool \<times> tetris" where
  "rotate_piece ccw s =
     (let (rotatable, s1) = can_rotate ccw s
      in if \<not> rotatable then (False, s1)
         else
           let s2 = update_piece 0 s1;
               s3 = s2\<lparr>curr_piece := piece_rotate ccw (curr_piece s2)\<rparr>
           in (True, update_piece (color (curr_piece s3)) s3))"

section \<open>Removing lines\<close>

text \<open>
  The two inner loops over \<open>x\<close>: \<open>clear_line\<close> writes 0 into the first \<open>width_\<close> cells
  of a row, the copy loop of \<open>try_remove_line\<close> overwrites them with the cells of the
  row \<open>from\<close>.
\<close>

definition clear_row :: "nat \<Rightarrow> int list \<Rightarrow> int list" where
  "clear_row w r = fold (\<lambda>x r. r[x := 0]) [0..<w] r"

definition copy_row :: "nat \<Rightarrow> int list \<Rightarrow> int list \<Rightarrow> int list" where
  "copy_row w src dst = fold (\<lambda>x r. r[x := src ! x]) [0..<w] dst"

definition clear_line :: "int \<Rightarrow> tetris \<Rightarrow> tetris" where
  "clear_line y s = s\<lparr>board := (board s)[nat y := clear_row (nat (width s)) (board s ! nat y)]\<rparr>"

text \<open>
  The \<open>while\<close> loop that looks for the row to pull down: it walks up from \<open>from\<close> past
  every row that is to be removed or has been moved already, and ends below zero when
  no row is left.
\<close>

function find_from :: "int set \<Rightarrow> bool list \<Rightarrow> int \<Rightarrow> int" where
  "find_from R moved from =
     (if from \<ge> 0 \<and> (from \<in> R \<or> moved ! nat from)
      then find_from R moved (from - 1)
      else from)"
  by pat_completeness auto
termination
  by (relation "measure (\<lambda>(R, moved, from). nat (from + 1))") auto

declare find_from.simps [simp del]

text \<open>
  The \<open>for\<close> loop of \<open>try_remove_line\<close> over the target rows \<open>y\<close>, from the lowest
  removed line up to the row \<open>lo\<close>; \<open>w\<close> is \<open>width_\<close>.
\<close>

function compact_loop ::
  "nat \<Rightarrow> int \<Rightarrow> int set \<Rightarrow> int \<Rightarrow> bool list \<Rightarrow> board_t \<Rightarrow> board_t" where
  "compact_loop w lo R y moved b =
     (if y \<ge> lo
      then
        let from = find_from R moved (y - 1)
        in if from \<ge> 0
           then compact_loop w lo R (y - 1) (moved[nat from := True])
                  (b[nat y := copy_row w (b ! nat from) (b ! nat y)])
           else compact_loop w lo R (y - 1) moved (b[nat y := clear_row w (b ! nat y)])
      else b)"
  by pat_completeness auto
termination
  by (relation "measure (\<lambda>(w, lo, R, y, moved, b). nat (y - lo + 1))") auto

declare compact_loop.simps [simp del]

text \<open>The first loop of \<open>try_remove_line\<close>: the full rows among those the piece spans.\<close>

definition lines_to_remove :: "tetris \<Rightarrow> int set" where
  "lines_to_remove s =
     (let ext = get_extent (curr_piece s);
          ly = fst (location (curr_piece s))
      in fold (\<lambda>i R. if list_all (\<lambda>c. c \<noteq> 0) (board s ! nat i) then insert i R else R)
           (rev [ly + y_min ext .. ly + y_max ext]) {})"

definition try_remove_line :: "tetris \<Rightarrow> tetris" where
  "try_remove_line s =
     (let R = lines_to_remove s
      in if R = {} then s
         else
           let s1 = s\<lparr>score := score s + card R\<rparr>;
               moved = replicate (nat (board_height s1)) False;
               s2 = s1\<lparr>board := compact_loop (nat (width s1)) (invisible_lines + 1) R (Max R)
                                   moved (board s1)\<rparr>
           in clear_line invisible_lines s2)"

section \<open>The randomizer\<close>

text \<open>
  The source draws from \<open>std::uniform_int_distribution<>(a, b)\<close> applied to a static
  random engine. The output of the engine is an input of the model: a draw takes the raw
  value \<open>raw\<close> the engine delivers and maps it into the closed range \<open>[a, b]\<close>.
\<close>

definition uniform_int_distribution :: "int \<Rightarrow> int \<Rightarrow> nat \<Rightarrow> int" where
  "uniform_int_distribution a b raw = a + int (raw mod nat (b - a + 1))"

text \<open>
  \<open>tetris::random_shape\<close>; \<open>e1\<close> feeds the first draw and \<open>e2\<close> the second one, which
  is only made inside the \<open>if\<close>.
\<close>

definition random_shape :: "nat \<Rightarrow> nat \<Rightarrow> tetris \<Rightarrow> int \<times> tetris" where
  "random_shape e1 e2 s =
     (let ret = uniform_int_distribution 0 (int n_shapes) e1;
          ret = (if ret = int n_shapes \<or> ret = prev_shape s
                 then uniform_int_distribution 0 (int n_shapes - 1) e2
                 else ret)
      in (ret, s\<lparr>prev_shape := ret\<rparr>))"







section \<open>Spawning, the gravity tick and the key loop\<close>

text \<open>
  The two exceptions of the program. An exception leaves the object as it is at the
  \<open>throw\<close>, so a failing operation returns the error together with that state.
\<close>

datatype error = gameover | runtime_error

text \<open>
  The raw values the random engines deliver during one call of \<open>new_piece\<close>: two for the
  engine of \<open>random_shape\<close>, then colour, rotation and column from the engine of
  \<open>new_piece\<close>.
\<close>

record randoms =
  shape_e1 :: nat
  shape_e2 :: nat
  color_e :: nat
  rot_e :: nat
  x_e :: nat

text \<open>The loop of \<open>new_piece\<close> that throws \<open>gameover\<close> at the first non-zero cell.\<close>

fun blocks_hit :: "tetris \<Rightarrow> block \<Rightarrow> shape_t \<Rightarrow> bool" where
  "blocks_hit s loc [] = False"
| "blocks_hit s loc (blk # rest) =
     (if board_cell s (block_add loc blk) 0 0 \<noteq> 0 then True else blocks_hit s loc rest)"

definition new_piece :: "randoms \<Rightarrow> tetris \<Rightarrow> (error \<times> tetris) + tetris" where
  "new_piece r s =
     (let (shp, s1) = random_shape (shape_e1 r) (shape_e2 r) s;
          p1 = (curr_piece s1)\<lparr>shape := nat shp,
                                color := uniform_int_distribution 1 7 (color_e r)\<rparr>;
          n_rot = int (length (shapes ! shape p1));
          p2 = p1\<lparr>rotation := uniform_int_distribution 0 (n_rot - 1) (rot_e r)\<rparr>;
          s2 = s1\<lparr>curr_piece := p2\<rparr>;
          ext = get_extent p2;
          x_lo = - x_min ext;
          x_hi = width s2 - x_max ext - 1;
          y = invisible_lines - y_min ext
      in if x_lo > x_hi \<or> y + y_max ext \<ge> board_height s2
         then Inl (runtime_error, s2)
         else
           let s3 = s2\<lparr>curr_piece :=
                        p2\<lparr>location := (y, uniform_int_distribution x_lo x_hi (x_e r))\<rparr>\<rparr>
           in if blocks_hit s3 (location (curr_piece s3)) (get_shape (curr_piece s3))
              then Inl (gameover, s3)
              else Inr (update_piece (color (curr_piece s3)) s3))"

text \<open>
  The constructor: an empty board of \<open>height + invisible_lines_\<close> rows, then
  \<open>new_piece\<close>. The member \<open>curr_piece_\<close> is not initialised before that call; \<open>p0\<close>
  stands for whatever it holds.
\<close>

definition tetris_init :: "int \<Rightarrow> int \<Rightarrow> piece \<Rightarrow> randoms \<Rightarrow> (error \<times> tetris) + tetris" where
  "tetris_init h w p0 r =
     new_piece r
       \<lparr> height = h, width = w,
         board = replicate (nat (h + invisible_lines)) (replicate (nat w) 0),
         curr_piece = p0, tick_cnt = 0, prev_shape = - 1, score = 0 \<rparr>"

text \<open>\<open>tetris::tick\<close>; drawing the frame does not change the state.\<close>

definition tick :: "randoms \<Rightarrow> tetris \<Rightarrow> (error \<times> tetris) + tetris" where
  "tick r s =
     (let s1 = s\<lparr>tick_cnt := tick_cnt s + 1\<rparr>
      in if tick_cnt s1 \<ge> move_ticks
         then
           let s2 = s1\<lparr>tick_cnt := 0\<rparr>;
               (moved, s3) = move_piece 1 0 s2
           in if \<not> moved then new_piece r (try_remove_line s3) else Inr s3
         else Inr s1)"

text \<open>
  \<open>while (move_piece()) ;\<close> of the key \<open>s\<close>. The loop has no bound of its own, so
  not returning is the value \<open>None\<close>.
\<close>

partial_function (option) drop_loop :: "tetris \<Rightarrow> tetris option" where
  "drop_loop s =
     (let r = move_piece 1 0 s
      in if fst r then drop_loop (snd r) else Some (snd r))"

declare drop_loop.simps [code]

text \<open>The branch \<open>c == 's'\<close> of \<open>tetris::loop\<close>.\<close>

definition hard_drop :: "tetris \<Rightarrow> tetris option" where
  "hard_drop s =
     (case drop_loop s of
        None \<Rightarrow> None
      | Some s1 \<Rightarrow> Some (s1\<lparr>tick_cnt := 0\<rparr>))"

text \<open>The chain of tests on the key read by \<open>getch\<close> in \<open>tetris::loop\<close>.\<close>

definition key_pressed :: "char \<Rightarrow> tetris \<Rightarrow> tetris option" where
  "key_pressed c s =
     (if c = CHR ''w'' then Some (snd (rotate_piece False s))
      else if c = CHR ''a'' then Some (snd (move_piece 0 (- 1) s))
      else if c = CHR ''d'' then Some (snd (move_piece 0 1 s))
      else if c = CHR ''s'' then hard_drop s
      else Some s)"

text \<open>
  One round of the \<open>while (true)\<close> of \<open>tetris::loop\<close>: a tick, then the key if there is
  one (\<open>None\<close> is \<open>ERR\<close>). The round ends the loop with the error thrown or, on the
  key \<open>q\<close>, with \<open>Inl (None, _)\<close>.
\<close>

definition loop_body ::
  "randoms \<Rightarrow> char option \<Rightarrow> tetris \<Rightarrow> ((error option \<times> tetris) + tetris) option" where
  "loop_body r k s =
     (case tick r s of
        Inl (e, s1) \<Rightarrow> Some (Inl (Some e, s1))
      | Inr s1 \<Rightarrow>
          (case k of
             None \<Rightarrow> Some (Inr s1)
           | Some c \<Rightarrow>
               (case key_pressed c s1 of
                  None \<Rightarrow> None
                | Some s2 \<Rightarrow> if c = CHR ''q'' then Some (Inl (None, s2)) else Some (Inr s2))))"

section \<open>The engine invariant\<close>

text \<open>
  Between two operations of a running game the board has \<open>board_height_\<close> rows of
  \<open>width_\<close> cells, the current piece is an entry of the table, and each of its blocks
  lies on the board and carries the colour of the piece.
\<close>

definition board_ok :: "tetris \<Rightarrow> bool" where
  "board_ok s \<longleftrightarrow>
     length (board s) = nat (board_height s) \<and>
     list_all (\<lambda>row. length row = nat (width s)) (board s)"

definition piece_ok :: "piece \<Rightarrow> bool" where
  "piece_ok p \<longleftrightarrow>
     shape p < n_shapes \<and> 0 \<le> rotation p \<and> rotation p < int (length (shapes ! shape p))"

definition piece_cells :: "piece \<Rightarrow> block list" where
  "piece_cells p = map (block_add (location p)) (get_shape p)"

definition state_ok :: "tetris \<Rightarrow> bool" where
  "state_ok s \<longleftrightarrow>
     board_ok s \<and> piece_ok (curr_piece s) \<and>
     list_all (\<lambda>c. check_boundary s c 0 0 \<and> board_cell s c 0 0 = color (curr_piece s))
       (piece_cells (curr_piece s))"

section \<open>The engine of tetris.cc\<close>

text \<open>
  The repository holds a second file, \<open>tetris.cc\<close>, with the same engine in another
  state of its development: the board has no invisible rows, a piece carries its own
  blocks, which a rotation turns by quarter turns, and the key \<open>s\<close> locks the piece at
  once. Its definitions carry the suffix \<open>_cc\<close>; the row loops, the extent and the
  board access above are the same code and are shared.
\<close>

text \<open>
  \<open>block::rotate\<close>: \<open>cnt %= 4\<close>, then \<open>cnt\<close> clockwise quarter turns
  \<open>(y, x) \<mapsto> (x, -y)\<close>. The callers pass 1 or a draw from \<open>[0, 3]\<close>, so \<open>cnt\<close>
  is a natural number.
\<close>

definition block_rotate :: "nat \<Rightarrow> block \<Rightarrow> block" where
  "block_rotate cnt b = ((\<lambda>(y, x). (x, - y)) ^^ (cnt mod 4)) b"

definition shapes_cc :: "shape_t list" where
  "shapes_cc =
    [ [(0, -1), (0, 0), (0, 1), (0, 2)],
      [(0, 0), (0, 1), (1, 0), (1, 1)],
      [(-1, 0), (0, 0), (0, 1), (1, 1)],
      [(-1, 0), (0, 0), (0, -1), (1, -1)],
      [(1, -1), (0, -1), (0, 0), (0, 1)],
      [(1, 1), (0, 1), (0, 0), (0, -1)],
      [(0, 0), (-1, 0), (0, -1), (0, 1)] ]"

definition n_shapes_cc :: nat where
  "n_shapes_cc = length shapes_cc"

record piece_cc =
  shape_index_cc :: nat
  shape_cc :: shape_t
  location_cc :: block
  color_cc :: int

record tetris_cc =
  height_cc :: int
  width_cc :: int
  board_cc :: board_t
  curr_piece_cc :: piece_cc
  tick_cnt_cc :: int
  score_cc :: nat

definition piece_rotate_cc :: "nat \<Rightarrow> piece_cc \<Rightarrow> piece_cc" where
  "piece_rotate_cc cnt p = p\<lparr>shape_cc := map (block_rotate cnt) (shape_cc p)\<rparr>"

definition get_extent_cc :: "piece_cc \<Rightarrow> extent" where
  "get_extent_cc p = shape_extent (shape_cc p)"

definition check_boundary_cc :: "tetris_cc \<Rightarrow> block \<Rightarrow> int \<Rightarrow> int \<Rightarrow> bool" where
  "check_boundary_cc s b y x =
     (let yy = fst b + y; xx = snd b + x
      in 0 \<le> yy \<and> yy < height_cc s \<and> 0 \<le> xx \<and> xx < width_cc s)"

definition board_cell_cc :: "tetris_cc \<Rightarrow> block \<Rightarrow> int \<Rightarrow> int \<Rightarrow> int" where
  "board_cell_cc s b y x = cell_at (board_cc s) (fst b + y, snd b + x)"

text \<open>\<open>update_piece\<close> is only ever called with its offsets at their default 0.\<close>

definition update_piece_cc :: "int \<Rightarrow> tetris_cc \<Rightarrow> tetris_cc" where
  "update_piece_cc c s =
     (let loc = location_cc (curr_piece_cc s)
      in s\<lparr>board_cc := fold (\<lambda>blk. set_cell (block_add loc blk) c)
                           (shape_cc (curr_piece_cc s)) (board_cc s)\<rparr>)"

fun blocks_free_cc :: "tetris_cc \<Rightarrow> block \<Rightarrow> int \<Rightarrow> int \<Rightarrow> shape_t \<Rightarrow> bool" where
  "blocks_free_cc s loc y x [] = True"
| "blocks_free_cc s loc y x (blk # rest) =
     (let block_loc = block_add loc blk
      in if \<not> check_boundary_cc s block_loc y x \<or> board_cell_cc s block_loc y x \<noteq> 0
         then False
         else blocks_free_cc s loc y x rest)"

definition can_move_cc :: "int \<Rightarrow> int \<Rightarrow> tetris_cc \<Rightarrow> bool \<times> tetris_cc" where
  "can_move_cc y x s =
     (let s1 = update_piece_cc 0 s;
          movable = blocks_free_cc s1 (location_cc (curr_piece_cc s1)) y x
                      (shape_cc (curr_piece_cc s1));
          s2 = update_piece_cc (color_cc (curr_piece_cc s1)) s1
      in (movable, s2))"

definition move_piece_cc :: "int \<Rightarrow> int \<Rightarrow> tetris_cc \<Rightarrow> bool \<times> tetris_cc" where
  "move_piece_cc y x s =
     (let (movable, s1) = can_move_cc y x s
      in if \<not> movable then (False, s1)
         else
           let s2 = update_piece_cc 0 s1;
               loc = location_cc (curr_piece_cc s2);
               s3 = s2\<lparr>curr_piece_cc :=
                        (curr_piece_cc s2)\<lparr>location_cc := (fst loc + y, snd loc + x)\<rparr>\<rparr>
           in (True, update_piece_cc (color_cc (curr_piece_cc s3)) s3))"

definition can_rotate_cc :: "nat \<Rightarrow> tetris_cc \<Rightarrow> bool \<times> tetris_cc" where
  "can_rotate_cc cnt s =
     (let s1 = update_piece_cc 0 s;
          rotatable = blocks_free_cc s1 (location_cc (curr_piece_cc s1)) 0 0
                        (map (block_rotate cnt) (shape_cc (curr_piece_cc s1)));
          s2 = update_piece_cc (color_cc (curr_piece_cc s1)) s1
      in (rotatable, s2))"

definition rotate_piece_cc :: "nat \<Rightarrow> tetris_cc \<Rightarrow> bool \<times> tetris_cc" where
  "rotate_piece_cc cnt s =
     (let (rotatable, s1) = can_rotate_cc cnt s
      in if \<not> rotatable then (False, s1)
         else
           let s2 = update_piece_cc 0 s1;
               s3 = s2\<lparr>curr_piece_cc := piece_rotate_cc cnt (curr_piece_cc s2)\<rparr>
           in (True, update_piece_cc (color_cc (curr_piece_cc s3)) s3))"

definition clear_line_cc :: "int \<Rightarrow> tetris_cc \<Rightarrow> tetris_cc" where
  "clear_line_cc y s =
     s\<lparr>board_cc := (board_cc s)[nat y := clear_row (nat (width_cc s)) (board_cc s ! nat y)]\<rparr>"

definition lines_to_remove_cc :: "tetris_cc \<Rightarrow> int set" where
  "lines_to_remove_cc s =
     (let ext = get_extent_cc (curr_piece_cc s);
          ly = fst (location_cc (curr_piece_cc s))
      in fold (\<lambda>i R. if list_all (\<lambda>c. c \<noteq> 0) (board_cc s ! nat i) then insert i R else R)
           (rev [ly + y_min ext .. ly + y_max ext]) {})"

definition try_remove_line_cc :: "tetris_cc \<Rightarrow> tetris_cc" where
  "try_remove_line_cc s =
     (let R = lines_to_remove_cc s
      in if R = {} then s
         else
           let s1 = s\<lparr>score_cc := score_cc s + card R\<rparr>;
               moved = replicate (nat (height_cc s1)) False;
               s2 = s1\<lparr>board_cc := compact_loop (nat (width_cc s1)) 1 R (Max R)
                                      moved (board_cc s1)\<rparr>
           in clear_line_cc 0 s2)"

text \<open>The draws of \<open>new_piece\<close> in the order the source makes them.\<close>

record randoms_cc =
  shape_e_cc :: nat
  color_e_cc :: nat
  rot_e_cc :: nat
  x_e_cc :: nat

fun blocks_hit_cc :: "tetris_cc \<Rightarrow> block \<Rightarrow> shape_t \<Rightarrow> bool" where
  "blocks_hit_cc s loc [] = False"
| "blocks_hit_cc s loc (blk # rest) =
     (if board_cell_cc s (block_add loc blk) 0 0 \<noteq> 0 then True else blocks_hit_cc s loc rest)"

definition new_piece_cc :: "randoms_cc \<Rightarrow> tetris_cc \<Rightarrow> (error \<times> tetris_cc) + tetris_cc" where
  "new_piece_cc r s =
     (let idx = nat (uniform_int_distribution 0 (int n_shapes_cc - 1) (shape_e_cc r));
          p1 = (curr_piece_cc s)\<lparr>shape_index_cc := idx, shape_cc := shapes_cc ! idx,
                                  color_cc := uniform_int_distribution 1 7 (color_e_cc r)\<rparr>;
          rot = nat (uniform_int_distribution 0 3 (rot_e_cc r));
          p2 = piece_rotate_cc rot p1;
          s1 = s\<lparr>curr_piece_cc := p2\<rparr>;
          ext = get_extent_cc p2;
          x_lo = - x_min ext;
          x_hi = width_cc s1 - x_max ext - 1;
          y = - y_min ext
      in if x_lo > x_hi \<or> y + y_max ext \<ge> height_cc s1
         then Inl (runtime_error, s1)
         else
           let s2 = s1\<lparr>curr_piece_cc :=
                        p2\<lparr>location_cc :=
                             (- y_min ext, uniform_int_distribution x_lo x_hi (x_e_cc r))\<rparr>\<rparr>
           in if blocks_hit_cc s2 (location_cc (curr_piece_cc s2)) (shape_cc (curr_piece_cc s2))
              then Inl (gameover, s2)
              else Inr (update_piece_cc (color_cc (curr_piece_cc s2)) s2))"


definition tick_cc :: "randoms_cc \<Rightarrow> tetris_cc \<Rightarrow> (error \<times> tetris_cc) + tetris_cc" where
  "tick_cc r s =
     (let s1 = s\<lparr>tick_cnt_cc := tick_cnt_cc s + 1\<rparr>
      in if tick_cnt_cc s1 \<ge> move_ticks
         then
           let s2 = s1\<lparr>tick_cnt_cc := 0\<rparr>;
               (moved, s3) = move_piece_cc 1 0 s2
           in if \<not> moved then new_piece_cc r (try_remove_line_cc s3) else Inr s3
         else Inr s1)"

partial_function (option) drop_loop_cc :: "tetris_cc \<Rightarrow> tetris_cc option" where
  "drop_loop_cc s =
     (let r = move_piece_cc 1 0 s
      in if fst r then drop_loop_cc (snd r) else Some (snd r))"

declare drop_loop_cc.simps [code]

text \<open>
  The branch \<open>c == 's'\<close> of \<open>tetris::loop\<close> in tetris.cc: drop, remove lines, reset
  the tick counter, and put the next piece on the board at once.
\<close>

definition hard_drop_cc ::
  "randoms_cc \<Rightarrow> tetris_cc \<Rightarrow> ((error \<times> tetris_cc) + tetris_cc) option" where
  "hard_drop_cc r s =
     (case drop_loop_cc s of
        None \<Rightarrow> None
      | Some s1 \<Rightarrow>
          let s2 = try_remove_line_cc s1;
              s3 = s2\<lparr>tick_cnt_cc := 0\<rparr>
          in Some (new_piece_cc r s3))"

section \<open>Notions used in the statements\<close>

text \<open>
  A board is rectangular when it has \<open>h\<close> rows of \<open>w\<close> cells; a position is inside
  when it indexes such a board.
\<close>

definition rect :: "nat \<Rightarrow> nat \<Rightarrow> board_t \<Rightarrow> bool" where
  "rect h w b \<longleftrightarrow> length b = h \<and> list_all (\<lambda>row. length row = w) b"

definition inside :: "nat \<Rightarrow> nat \<Rightarrow> block \<Rightarrow> bool" where
  "inside h w p \<longleftrightarrow> 0 \<le> fst p \<and> nat (fst p) < h \<and> 0 \<le> snd p \<and> nat (snd p) < w"

text \<open>The cells the current piece would cover after a rotation, at the same anchor.\<close>

definition rotated_cells :: "bool \<Rightarrow> piece \<Rightarrow> block list" where
  "rotated_cells ccw p = map (block_add (location p)) (get_rotated_shape ccw p)"

definition piece_cells_cc :: "piece_cc \<Rightarrow> block list" where
  "piece_cells_cc p = map (block_add (location_cc p)) (shape_cc p)"

definition rotated_cells_cc :: "nat \<Rightarrow> piece_cc \<Rightarrow> block list" where
  "rotated_cells_cc cnt p = map (block_add (location_cc p)) (map (block_rotate cnt) (shape_cc p))"

text \<open>The invariant of the engine of tetris.cc, whose board has \<open>height_\<close> rows.\<close>

definition board_ok_cc :: "tetris_cc \<Rightarrow> bool" where
  "board_ok_cc s \<longleftrightarrow>
     length (board_cc s) = nat (height_cc s) \<and>
     list_all (\<lambda>row. length row = nat (width_cc s)) (board_cc s)"

definition state_ok_cc :: "tetris_cc \<Rightarrow> bool" where
  "state_ok_cc s \<longleftrightarrow>
     board_ok_cc s \<and> shape_cc (curr_piece_cc s) \<noteq> [] \<and>
     list_all (\<lambda>c. check_boundary_cc s c 0 0 \<and> board_cell_cc s c 0 0 = color_cc (curr_piece_cc s))
       (piece_cells_cc (curr_piece_cc s))"

text \<open>One attempt to move the current piece down by one row.\<close>

definition fall :: "tetris \<Rightarrow> tetris" where
  "fall s = snd (move_piece 1 0 s)"

definition fall_cc :: "tetris_cc \<Rightarrow> tetris_cc" where
  "fall_cc s = snd (move_piece_cc 1 0 s)"

text \<open>
  The second half of \<open>try_remove_line\<close>, from the vector \<open>moved\<close> to the final
  \<open>clear_line\<close>, for a board of \<open>h\<close> rows of \<open>w\<close> cells, a set \<open>R\<close> of lines to
  remove and the first row \<open>first\<close> the loop may write: \<open>invisible_lines_\<close>, and 0 in
  tetris.cc.
\<close>

definition remove_lines :: "nat \<Rightarrow> nat \<Rightarrow> int \<Rightarrow> int set \<Rightarrow> board_t \<Rightarrow> board_t" where
  "remove_lines h w first R b =
     (let moved = replicate h False;
          b1 = compact_loop w (first + 1) R (Max R) moved b
      in b1[nat first := clear_row w (b1 ! nat first)])"

text \<open>
  What removing rows means, in the words of the specification: the rows of \<open>R\<close> are
  gone, the other rows follow in their order, and as many zero rows as were removed are
  on top.
\<close>

definition compacted :: "nat \<Rightarrow> int set \<Rightarrow> board_t \<Rightarrow> board_t" where
  "compacted w R b =
     replicate (card R) (replicate w 0) @
     map (\<lambda>i. b ! i) (filter (\<lambda>i. int i \<notin> R) [0..<length b])"

text \<open>
  The rows above row \<open>m\<close> that are not to be removed, from the nearest one upwards,
  and the row that the loop pulls down in its step \<open>k\<close>.
\<close>

definition kept_below :: "int set \<Rightarrow> nat \<Rightarrow> nat list" where
  "kept_below R m = rev (filter (\<lambda>i. int i \<notin> R) [0..<m])"

definition pulled :: "nat \<Rightarrow> int set \<Rightarrow> board_t \<Rightarrow> nat \<Rightarrow> nat \<Rightarrow> int list" where
  "pulled w R b m k =
     (if k < length (kept_below R m) then b ! (kept_below R m ! k) else replicate w 0)"

section \<open>Concrete states\<close>

text \<open>The empty board of the default game, 20 visible rows of 10 cells below 2 invisible rows.\<close>

definition empty_board :: board_t where
  "empty_board = replicate 22 (replicate 10 0)"

text \<open>An upright I piece in the leftmost column.\<close>

definition at_left_wall :: tetris where
  "at_left_wall =
     update_piece 3
       \<lparr> height = 20, width = 10, board = empty_board,
         curr_piece = \<lparr>shape = 0, location = (4, 0), rotation = 1, color = 3\<rparr>,
         tick_cnt = 0, prev_shape = 0, score = 0 \<rparr>"

text \<open>A lying I piece as the constructor of the default game can spawn it.\<close>

definition spawned_I :: tetris where
  "spawned_I =
     update_piece 3
       \<lparr> height = 20, width = 10, board = empty_board,
         curr_piece = \<lparr>shape = 0, location = (2, 5), rotation = 0, color = 3\<rparr>,
         tick_cnt = 0, prev_shape = 0, score = 0 \<rparr>"

text \<open>Draws that make \<open>new_piece\<close> spawn this very piece, on an empty board as after it.\<close>

definition draws_I :: randoms where
  "draws_I = \<lparr>shape_e1 = 0, shape_e2 = 0, color_e = 2, rot_e = 0, x_e = 3\<rparr>"

text \<open>
  The same piece resting on a block right below it, one tick before gravity acts: it
  cannot fall, and the next piece is drawn onto it.
\<close>

definition topped_out :: tetris where
  "topped_out =
     update_piece 3
       \<lparr> height = 20, width = 10, board = empty_board[3 := [0, 0, 0, 5, 0, 0, 0, 0, 0, 0]],
         curr_piece = \<lparr>shape = 0, location = (2, 5), rotation = 0, color = 3\<rparr>,
         tick_cnt = 49, prev_shape = 0, score = 0 \<rparr>"

text \<open>The state of tetris.cc in its constructor before \<open>new_piece\<close>, and draws for it.\<close>

definition empty_cc :: tetris_cc where
  "empty_cc =
     \<lparr> height_cc = 20, width_cc = 10, board_cc = replicate 20 (replicate 10 0),
       curr_piece_cc = \<lparr>shape_index_cc = 0, shape_cc = [], location_cc = (0, 0), color_cc = 0\<rparr>,
       tick_cnt_cc = 0, score_cc = 0 \<rparr>"

definition draws_cc :: randoms_cc where
  "draws_cc = \<lparr>shape_e_cc = 1, color_e_cc = 2, rot_e_cc = 0, x_e_cc = 8\<rparr>"

text \<open>The O piece that \<open>new_piece\<close> of tetris.cc puts on the empty board for these draws.\<close>

definition spawned_cc :: tetris_cc where
  "spawned_cc =
     update_piece_cc 3
       (empty_cc\<lparr>curr_piece_cc :=
          \<lparr>shape_index_cc = 1, shape_cc = [(0, 0), (0, 1), (1, 0), (1, 1)],
            location_cc = (0, 8), color_cc = 3\<rparr>\<rparr>)"

text \<open>
  Two lying I pieces fill the bottom row up to its last two cells; an O piece has been
  spawned above the gap, and the same piece after it has come down into the gap.
\<close>

definition falling_O :: tetris where
  "falling_O =
     update_piece 4
       \<lparr> height = 20, width = 10, board = empty_board[21 := [3, 3, 3, 3, 3, 3, 3, 3, 0, 0]],
         curr_piece = \<lparr>shape = 1, location = (2, 8), rotation = 0, color = 4\<rparr>,
         tick_cnt = 17, prev_shape = 1, score = 0 \<rparr>"

definition landed_O :: tetris where
  "landed_O =
     update_piece 4
       \<lparr> height = 20, width = 10, board = empty_board[21 := [3, 3, 3, 3, 3, 3, 3, 3, 0, 0]],
         curr_piece = \<lparr>shape = 1, location = (20, 8), rotation = 0, color = 4\<rparr>,
         tick_cnt = 0, prev_shape = 1, score = 0 \<rparr>"

text \<open>
  A stack that reaches the first visible rows: row 3 lacks only its cell in column 4,
  the cell below that gap is taken, and every row further down lacks its first cell. On
  it, a lying I piece as it is spawned; moved one column to the left and turned upright,
  it fills the gap, reaches into the two invisible rows, and cannot fall.
\<close>

definition stack_board :: board_t where
  "stack_board =
     replicate 3 (replicate 10 0) @ [[5, 5, 5, 5, 0, 5, 5, 5, 5, 5]] @
     replicate 18 [0, 5, 5, 5, 5, 5, 5, 5, 5, 5]"

definition spawned_on_stack :: tetris where
  "spawned_on_stack =
     update_piece 3
       \<lparr> height = 20, width = 10, board = stack_board,
         curr_piece = \<lparr>shape = 0, location = (2, 5), rotation = 0, color = 3\<rparr>,
         tick_cnt = 0, prev_shape = 0, score = 0 \<rparr>"

definition wedged_I :: tetris where
  "wedged_I =
     update_piece 3
       \<lparr> height = 20, width = 10, board = stack_board,
         curr_piece = \<lparr>shape = 0, location = (2, 4), rotation = 1, color = 3\<rparr>,
         tick_cnt = 0, prev_shape = 0, score = 0 \<rparr>"

text \<open>A board of ten rows whose rows 2, 5 and 7 are full and whose other rows are not.\<close>

definition ten_rows :: board_t where
  "ten_rows =
     [[0, 1], [1, 0], [2, 2], [0, 3], [4, 0], [5, 5], [0, 6], [7, 7], [8, 0], [0, 9]]"

text \<open>In tetris.cc, an upright I piece in the leftmost column.\<close>

definition at_left_wall_cc :: tetris_cc where
  "at_left_wall_cc =
     update_piece_cc 3
       (empty_cc\<lparr>curr_piece_cc :=
          \<lparr>shape_index_cc = 0, shape_cc = [(- 1, 0), (0, 0), (1, 0), (2, 0)],
            location_cc = (1, 0), color_cc = 3\<rparr>\<rparr>)"

section \<open>Rotation indices\<close>

lemma n_shapes_eq: "n_shapes = 7"
  by (simp add: n_shapes_def shapes_def)

lemma smod_nonneg: "0 \<le> (a::int) \<Longrightarrow> 0 < b \<Longrightarrow> a smod b = a mod b"
  by (simp add: smod_int_alt_def sgn_if)

lemma rot_fwd_back:
  assumes "0 \<le> (r::int)" and "r < n"
  shows "((r + 1 + n) mod n - 1 + n) mod n = r"
proof (cases "r + 1 < n")
  case True
  then have "(r + 1 + n) mod n = r + 1" using assms by simp
  then show ?thesis using assms by simp
next
  case False
  then have last: "r + 1 = n" using assms by simp
  then have "(r + 1 + n) mod n = 0" by simp
  then show ?thesis using assms last by (simp add: zmod_minus1)
qed

lemma rot_back_fwd:
  assumes "0 \<le> (r::int)" and "r < n"
  shows "((r - 1 + n) mod n + 1 + n) mod n = r"
proof (cases "r = 0")
  case True
  then have "(r - 1 + n) mod n = n - 1" using assms by (simp add: zmod_minus1)
  then show ?thesis using assms True by simp
next
  case False
  then have "(r - 1 + n) mod n = r - 1" using assms by simp
  then show ?thesis using assms by simp
qed

lemma get_rotated_mod:
  assumes "0 \<le> rotation p" and "rotation p < int (length (shapes ! shape p))"
  shows "get_rotated ccw p =
     ((if ccw then rotation p - 1 else rotation p + 1) + int (length (shapes ! shape p)))
       mod int (length (shapes ! shape p))"
proof -
  let ?n = "int (length (shapes ! shape p))"
  have "0 \<le> (if ccw then rotation p - 1 else rotation p + 1) + ?n" using assms by simp
  moreover have "0 < ?n" using assms by linarith
  ultimately show ?thesis
    unfolding get_rotated_def Let_def by (rule smod_nonneg)
qed

lemma get_rotated_valid:
  assumes "0 \<le> rotation p" and "rotation p < int (length (shapes ! shape p))"
  shows "0 \<le> get_rotated ccw p \<and> get_rotated ccw p < int (length (shapes ! shape p))"
proof -
  have "0 < int (length (shapes ! shape p))" using assms by linarith
  then show ?thesis by (simp add: get_rotated_mod [OF assms])
qed

section \<open>The randomizer\<close>

lemma uniform_int_distribution_range:
  assumes "a \<le> b"
  shows "a \<le> uniform_int_distribution a b raw \<and> uniform_int_distribution a b raw \<le> b"
proof -
  have "0 < nat (b - a + 1)" using assms by simp
  then have "raw mod nat (b - a + 1) < nat (b - a + 1)"
    by (rule mod_less_divisor)
  then show ?thesis
    unfolding uniform_int_distribution_def using assms by linarith
qed



subsection \<open>The laws of the draws\<close>

















section \<open>Writing and reading cells\<close>

lemma rect_row: "rect h w b \<Longrightarrow> i < h \<Longrightarrow> length (b ! i) = w"
  by (simp add: rect_def list_all_length)

lemma rect_update: "rect h w b \<Longrightarrow> length r = w \<Longrightarrow> rect h w (b[i := r])"
  by (cases "i < length b") (auto simp: rect_def list_all_length nth_list_update)

lemma rect_set_cell: "rect h w b \<Longrightarrow> rect h w (set_cell p v b)"
  unfolding set_cell_def
  by (cases "nat (fst p) < h") (auto simp: rect_def list_all_length nth_list_update)

lemma cell_at_set_cell:
  assumes "rect h w b" and "inside h w p" and "inside h w q"
  shows "cell_at (set_cell p v b) q = (if q = p then v else cell_at b q)"
proof -
  have rows: "length b = h" using assms(1) by (simp add: rect_def)
  have lp: "length (b ! nat (fst p)) = w" using assms(1,2) by (simp add: rect_row inside_def)
  show ?thesis
  proof (cases "q = p")
    case True
    then show ?thesis using assms(2) rows lp by (simp add: cell_at_def set_cell_def inside_def)
  next
    case False
    then have "fst q \<noteq> fst p \<or> snd q \<noteq> snd p" by (simp add: prod_eq_iff)
    then have "nat (fst q) \<noteq> nat (fst p) \<or> nat (snd q) \<noteq> nat (snd p)"
      using assms(2,3) by (auto simp: inside_def)
    then show ?thesis using False assms(2,3) rows lp
      by (auto simp: cell_at_def set_cell_def inside_def nth_list_update)
  qed
qed

lemma fold_set_cell:
  assumes "rect h w b" and "\<forall>p\<in>set ps. inside h w p"
  shows "rect h w (fold (\<lambda>p. set_cell p v) ps b) \<and>
         (\<forall>q. inside h w q \<longrightarrow>
            cell_at (fold (\<lambda>p. set_cell p v) ps b) q = (if q \<in> set ps then v else cell_at b q))"
  using assms
proof (induction ps arbitrary: b)
  case Nil
  then show ?case by simp
next
  case (Cons p ps)
  have r1: "rect h w (set_cell p v b)" using Cons.prems(1) by (rule rect_set_cell)
  have ins: "\<forall>p\<in>set ps. inside h w p" and inp: "inside h w p" using Cons.prems(2) by simp_all
  note IH = Cons.IH [OF r1 ins]
  show ?case
  proof (intro conjI allI impI)
    show "rect h w (fold (\<lambda>p. set_cell p v) (p # ps) b)" using IH by simp
  next
    fix q assume q: "inside h w q"
    have "cell_at (fold (\<lambda>p. set_cell p v) (p # ps) b) q =
          (if q \<in> set ps then v else cell_at (set_cell p v b) q)"
      using IH [THEN conjunct2, rule_format, OF q] by simp
    also have "\<dots> = (if q \<in> set (p # ps) then v else cell_at b q)"
      using cell_at_set_cell [OF Cons.prems(1) inp q, of v] by auto
    finally show "cell_at (fold (\<lambda>p. set_cell p v) (p # ps) b) q =
          (if q \<in> set (p # ps) then v else cell_at b q)" .
  qed
qed

lemma fold_set_cell_rect:
  assumes "rect h w b" and "\<forall>p\<in>set ps. inside h w p"
  shows "rect h w (fold (\<lambda>p. set_cell p v) ps b)"
  using fold_set_cell [OF assms] by (rule conjunct1)

lemma fold_set_cell_at:
  assumes "rect h w b" and "\<forall>p\<in>set ps. inside h w p" and "inside h w q"
  shows "cell_at (fold (\<lambda>p. set_cell p v) ps b) q = (if q \<in> set ps then v else cell_at b q)"
  using fold_set_cell [OF assms(1,2), THEN conjunct2, rule_format, OF assms(3)] .

lemma board_ext:
  assumes "rect h w b1" and "rect h w b2"
    and "\<And>q. inside h w q \<Longrightarrow> cell_at b1 q = cell_at b2 q"
  shows "b1 = b2"
proof (rule nth_equalityI)
  show "length b1 = length b2" using assms(1,2) by (simp add: rect_def)
next
  fix i assume i: "i < length b1"
  then have ih: "i < h" using assms(1) by (simp add: rect_def)
  show "b1 ! i = b2 ! i"
  proof (rule nth_equalityI)
    show "length (b1 ! i) = length (b2 ! i)"
      using assms(1,2) ih by (simp add: rect_row)
  next
    fix j assume "j < length (b1 ! i)"
    then have jw: "j < w" using assms(1) ih by (simp add: rect_row)
    have "inside h w (int i, int j)" using ih jw by (simp add: inside_def)
    from assms(3) [OF this] show "b1 ! i ! j = b2 ! i ! j" by (simp add: cell_at_def)
  qed
qed

section \<open>A failed move or rotation restores the state\<close>

lemma update_piece_eq:
  "update_piece c s = s\<lparr>board := fold (\<lambda>q. set_cell q c) (piece_cells (curr_piece s)) (board s)\<rparr>"
  by (simp add: update_piece_def piece_cells_def fold_map comp_def Let_def)

lemma update_piece_fields [simp]:
  "height (update_piece c s) = height s"
  "width (update_piece c s) = width s"
  "curr_piece (update_piece c s) = curr_piece s"
  "tick_cnt (update_piece c s) = tick_cnt s"
  "prev_shape (update_piece c s) = prev_shape s"
  "score (update_piece c s) = score s"
  "board_height (update_piece c s) = board_height s"
  by (simp_all add: update_piece_eq board_height_def)

lemma board_ok_rect: "board_ok s \<longleftrightarrow> rect (nat (board_height s)) (nat (width s)) (board s)"
  by (simp add: board_ok_def rect_def)

lemma check_boundary_inside:
  "check_boundary s c y x \<longleftrightarrow> inside (nat (board_height s)) (nat (width s)) (fst c + y, snd c + x)"
  by (auto simp: check_boundary_def inside_def Let_def)

lemma check_boundary_inside0:
  "check_boundary s c 0 0 \<longleftrightarrow> inside (nat (board_height s)) (nat (width s)) c"
  by (simp add: check_boundary_inside)

lemma board_cell0: "board_cell s c 0 0 = cell_at (board s) c"
  by (simp add: board_cell_def)

lemma state_ok_cells:
  assumes "state_ok s"
  shows "rect (nat (board_height s)) (nat (width s)) (board s)"
    and "\<forall>c\<in>set (piece_cells (curr_piece s)). inside (nat (board_height s)) (nat (width s)) c"
    and "\<forall>c\<in>set (piece_cells (curr_piece s)). cell_at (board s) c = color (curr_piece s)"
  using assms
  by (simp_all add: state_ok_def board_ok_rect list_all_iff check_boundary_inside0 board_cell0)

lemma update_piece_cell:
  assumes "rect (nat (board_height s)) (nat (width s)) (board s)"
    and "\<forall>c\<in>set (piece_cells (curr_piece s)). inside (nat (board_height s)) (nat (width s)) c"
  shows "rect (nat (board_height s)) (nat (width s)) (board (update_piece v s))"
    and "inside (nat (board_height s)) (nat (width s)) q \<Longrightarrow>
         cell_at (board (update_piece v s)) q =
           (if q \<in> set (piece_cells (curr_piece s)) then v else cell_at (board s) q)"
  using fold_set_cell_rect [OF assms, of v] fold_set_cell_at [OF assms, of q v]
  by (simp_all add: update_piece_eq)

lemma update_piece_restore:
  assumes "state_ok s"
  shows "update_piece (color (curr_piece s)) (update_piece 0 s) = s"
proof -
  let ?h = "nat (board_height s)" and ?w = "nat (width s)"
  let ?s1 = "update_piece 0 s"
  note ok = state_ok_cells [OF assms]
  have r1: "rect ?h ?w (board ?s1)" by (rule update_piece_cell(1) [OF ok(1,2)])
  have c1: "\<forall>c\<in>set (piece_cells (curr_piece ?s1)). inside (nat (board_height ?s1)) (nat (width ?s1)) c"
    using ok(2) by simp
  have r1': "rect (nat (board_height ?s1)) (nat (width ?s1)) (board ?s1)" using r1 by simp
  have "board (update_piece (color (curr_piece s)) ?s1) = board s"
  proof (rule board_ext [where h = ?h and w = ?w])
    show "rect ?h ?w (board (update_piece (color (curr_piece s)) ?s1))"
      using update_piece_cell(1) [OF r1' c1] by simp
    show "rect ?h ?w (board s)" by (rule ok(1))
    fix q assume q: "inside ?h ?w q"
    then have q': "inside (nat (board_height ?s1)) (nat (width ?s1)) q" by simp
    show "cell_at (board (update_piece (color (curr_piece s)) ?s1)) q = cell_at (board s) q"
      using update_piece_cell(2) [OF r1' c1 q'] update_piece_cell(2) [OF ok(1,2) q] ok(3)
      by simp
  qed
  then show ?thesis by (simp add: update_piece_eq [of "color (curr_piece s)"])
qed

lemma blocks_free_iff:
  "blocks_free s loc y x sh \<longleftrightarrow>
     (\<forall>blk\<in>set sh. check_boundary s (block_add loc blk) y x \<and>
                     board_cell s (block_add loc blk) y x = 0)"
  by (induction sh) (auto simp: Let_def)

lemma can_move_unchanged:
  "state_ok s \<Longrightarrow> snd (can_move y x s) = s"
  by (simp add: can_move_def Let_def update_piece_restore)

lemma can_rotate_unchanged:
  "state_ok s \<Longrightarrow> snd (can_rotate ccw s) = s"
  by (simp add: can_rotate_def Let_def update_piece_restore)

lemma move_piece_failure:
  "state_ok s \<Longrightarrow> \<not> fst (move_piece y x s) \<Longrightarrow> snd (move_piece y x s) = s"
  using can_move_unchanged [of s y x]
  by (auto simp: move_piece_def Let_def split: prod.splits if_splits)

lemma rotate_piece_failure:
  "state_ok s \<Longrightarrow> \<not> fst (rotate_piece ccw s) \<Longrightarrow> snd (rotate_piece ccw s) = s"
  using can_rotate_unchanged [of s ccw]
  by (auto simp: rotate_piece_def Let_def split: prod.splits if_splits)

section \<open>Successful moves and rotations\<close>

lemma check_boundary_update_piece [simp]:
  "check_boundary (update_piece c s) = check_boundary s"
  by (intro ext) (simp add: check_boundary_def)

lemma blocks_free_cleared:
  assumes "state_ok s"
  shows "blocks_free (update_piece 0 s) loc y x sh \<longleftrightarrow>
     (\<forall>blk\<in>set sh.
        check_boundary s (block_add loc blk) y x \<and>
        (board_cell s (block_add loc blk) y x = 0 \<or>
         (fst (block_add loc blk) + y, snd (block_add loc blk) + x)
           \<in> set (piece_cells (curr_piece s))))"
proof -
  note ok = state_ok_cells [OF assms]
  have "board_cell (update_piece 0 s) c y x = 0 \<longleftrightarrow>
        board_cell s c y x = 0 \<or> (fst c + y, snd c + x) \<in> set (piece_cells (curr_piece s))"
    if "check_boundary s c y x" for c
    using update_piece_cell(2) [OF ok(1,2), of "(fst c + y, snd c + x)" 0] that
    by (auto simp: check_boundary_inside board_cell_def)
  then show ?thesis
    unfolding blocks_free_iff check_boundary_update_piece by blast
qed

lemma restamp_ok:
  assumes "state_ok s" and "piece_ok p'"
    and "\<forall>c\<in>set (piece_cells p'). check_boundary s c 0 0"
  shows "state_ok (update_piece (color p') ((update_piece 0 s)\<lparr>curr_piece := p'\<rparr>))"
proof -
  let ?h = "nat (board_height s)" and ?w = "nat (width s)"
  let ?s3 = "(update_piece 0 s)\<lparr>curr_piece := p'\<rparr>"
  note ok = state_ok_cells [OF assms(1)]
  have dims: "board_height ?s3 = board_height s" "width ?s3 = width s"
    by (simp_all add: board_height_def)
  have r3: "rect (nat (board_height ?s3)) (nat (width ?s3)) (board ?s3)"
    using update_piece_cell(1) [OF ok(1,2), of 0] by (simp add: dims)
  have c3: "\<forall>c\<in>set (piece_cells (curr_piece ?s3)). inside (nat (board_height ?s3)) (nat (width ?s3)) c"
    using assms(3) by (simp add: dims check_boundary_inside0)
  have "board_ok (update_piece (color p') ?s3)"
    using update_piece_cell(1) [OF r3 c3, of "color p'"] by (simp add: board_ok_rect)
  moreover have "\<forall>c\<in>set (piece_cells p').
      check_boundary (update_piece (color p') ?s3) c 0 0 \<and>
      board_cell (update_piece (color p') ?s3) c 0 0 = color p'"
  proof
    fix c assume c: "c \<in> set (piece_cells p')"
    then have ins: "inside (nat (board_height ?s3)) (nat (width ?s3)) c" using c3 by simp
    have "check_boundary (update_piece (color p') ?s3) c 0 0"
      using ins by (simp add: check_boundary_inside0)
    moreover have "board_cell (update_piece (color p') ?s3) c 0 0 = color p'"
      using update_piece_cell(2) [OF r3 c3 ins, of "color p'"] c by (simp add: board_cell0)
    ultimately show "check_boundary (update_piece (color p') ?s3) c 0 0 \<and>
      board_cell (update_piece (color p') ?s3) c 0 0 = color p'" ..
  qed
  ultimately show ?thesis
    using assms(2) by (simp add: state_ok_def list_all_iff)
qed

lemma piece_cells_moved:
  "piece_cells (p\<lparr>location := (fst (location p) + y, snd (location p) + x)\<rparr>) =
     map (\<lambda>blk. (fst (block_add (location p) blk) + y, snd (block_add (location p) blk) + x))
       (get_shape p)"
  by (simp add: piece_cells_def block_add_def get_shape_def)

lemma piece_cells_rotated: "piece_cells (piece_rotate ccw p) = rotated_cells ccw p"
  by (simp add: piece_cells_def rotated_cells_def piece_rotate_def get_shape_def
      get_rotated_shape_def)

lemma piece_ok_rotate: "piece_ok p \<Longrightarrow> piece_ok (piece_rotate ccw p)"
  using get_rotated_valid [of p ccw] by (simp add: piece_ok_def piece_rotate_def)

lemma move_piece_fst:
  assumes "state_ok s"
  shows "fst (move_piece y x s) \<longleftrightarrow>
     (\<forall>blk\<in>set (get_shape (curr_piece s)).
        check_boundary s (block_add (location (curr_piece s)) blk) y x \<and>
        (board_cell s (block_add (location (curr_piece s)) blk) y x = 0 \<or>
         (fst (block_add (location (curr_piece s)) blk) + y,
          snd (block_add (location (curr_piece s)) blk) + x) \<in> set (piece_cells (curr_piece s))))"
  using blocks_free_cleared [OF assms, of "location (curr_piece s)" y x "get_shape (curr_piece s)"]
  by (simp add: move_piece_def can_move_def Let_def split: prod.splits)

lemma move_piece_success:
  assumes "state_ok s" and "fst (move_piece y x s)"
  shows "snd (move_piece y x s) =
     update_piece (color (curr_piece s))
       ((update_piece 0 s)\<lparr>curr_piece := (curr_piece s)
          \<lparr>location := (fst (location (curr_piece s)) + y, snd (location (curr_piece s)) + x)\<rparr>\<rparr>)"
  using assms(2) update_piece_restore [OF assms(1)]
  by (simp add: move_piece_def can_move_def Let_def split: prod.splits if_splits)

lemma move_piece_state_ok:
  assumes "state_ok s"
  shows "state_ok (snd (move_piece y x s))"
proof (cases "fst (move_piece y x s)")
  case False
  then show ?thesis using assms by (simp add: move_piece_failure)
next
  case True
  let ?p = "curr_piece s"
  let ?p' = "?p\<lparr>location := (fst (location ?p) + y, snd (location ?p) + x)\<rparr>"
  have pk: "piece_ok ?p'" using assms by (simp add: state_ok_def piece_ok_def)
  have "\<forall>c\<in>set (piece_cells ?p'). check_boundary s c 0 0"
    using True move_piece_fst [OF assms, of y x]
    by (auto simp: piece_cells_moved check_boundary_def Let_def)
  from restamp_ok [OF assms pk this] show ?thesis
    by (simp add: move_piece_success [OF assms True])
qed

lemma rotate_piece_fst:
  assumes "state_ok s"
  shows "fst (rotate_piece ccw s) \<longleftrightarrow>
     (\<forall>c\<in>set (rotated_cells ccw (curr_piece s)).
        check_boundary s c 0 0 \<and>
        (board_cell s c 0 0 = 0 \<or> c \<in> set (piece_cells (curr_piece s))))"
  using blocks_free_cleared [OF assms, of "location (curr_piece s)" 0 0
      "get_rotated_shape ccw (curr_piece s)"]
  by (simp add: rotate_piece_def can_rotate_def Let_def rotated_cells_def split: prod.splits)

lemma rotate_piece_success:
  assumes "state_ok s" and "fst (rotate_piece ccw s)"
  shows "snd (rotate_piece ccw s) =
     update_piece (color (curr_piece s))
       ((update_piece 0 s)\<lparr>curr_piece := piece_rotate ccw (curr_piece s)\<rparr>)"
  using assms(2) update_piece_restore [OF assms(1)]
  by (simp add: rotate_piece_def can_rotate_def Let_def piece_rotate_def
      split: prod.splits if_splits)

lemma rotate_piece_state_ok:
  assumes "state_ok s"
  shows "state_ok (snd (rotate_piece ccw s))"
proof (cases "fst (rotate_piece ccw s)")
  case False
  then show ?thesis using assms by (simp add: rotate_piece_failure)
next
  case True
  have pk: "piece_ok (piece_rotate ccw (curr_piece s))"
    using assms by (simp add: state_ok_def piece_ok_rotate)
  have "\<forall>c\<in>set (piece_cells (piece_rotate ccw (curr_piece s))). check_boundary s c 0 0"
    using True rotate_piece_fst [OF assms, of ccw] by (simp add: piece_cells_rotated)
  from restamp_ok [OF assms pk this] show ?thesis
    by (simp add: rotate_piece_success [OF assms True] piece_rotate_def)
qed

section \<open>Extents and the shape table\<close>

lemma fold_extent_step_bounds:
  "y_min (fold extent_step bs e) \<le> y_min e \<and> y_max e \<le> y_max (fold extent_step bs e) \<and>
   x_min (fold extent_step bs e) \<le> x_min e \<and> x_max e \<le> x_max (fold extent_step bs e) \<and>
   (\<forall>b\<in>set bs.
      y_min (fold extent_step bs e) \<le> fst b \<and> fst b \<le> y_max (fold extent_step bs e) \<and>
      x_min (fold extent_step bs e) \<le> snd b \<and> snd b \<le> x_max (fold extent_step bs e))"
proof (induction bs arbitrary: e)
  case Nil
  then show ?case by simp
next
  case (Cons b bs)
  from Cons.IH [of "extent_step b e"] show ?case
    by (simp add: extent_step_def)
qed

lemma extent_step_sel [simp]:
  "y_min (extent_step b e) = min (y_min e) (fst b)"
  "y_max (extent_step b e) = max (y_max e) (fst b)"
  "x_min (extent_step b e) = min (x_min e) (snd b)"
  "x_max (extent_step b e) = max (x_max e) (snd b)"
  by (simp_all add: extent_step_def)

lemma fold_extent_step_y_min:
  "y_min (fold extent_step bs e) \<in> insert (y_min e) (fst ` set bs)"
proof (induction bs arbitrary: e)
  case Nil
  then show ?case by simp
next
  case (Cons b bs)
  have "min (y_min e) (fst b) = y_min e \<or> min (y_min e) (fst b) = fst b" by linarith
  with Cons.IH [of "extent_step b e"] show ?case by auto
qed

lemma fold_extent_step_y_max:
  "y_max (fold extent_step bs e) \<in> insert (y_max e) (fst ` set bs)"
proof (induction bs arbitrary: e)
  case Nil
  then show ?case by simp
next
  case (Cons b bs)
  have "max (y_max e) (fst b) = y_max e \<or> max (y_max e) (fst b) = fst b" by linarith
  with Cons.IH [of "extent_step b e"] show ?case by auto
qed

lemma fold_extent_step_x_min:
  "x_min (fold extent_step bs e) \<in> insert (x_min e) (snd ` set bs)"
proof (induction bs arbitrary: e)
  case Nil
  then show ?case by simp
next
  case (Cons b bs)
  have "min (x_min e) (snd b) = x_min e \<or> min (x_min e) (snd b) = snd b" by linarith
  with Cons.IH [of "extent_step b e"] show ?case by auto
qed

lemma fold_extent_step_x_max:
  "x_max (fold extent_step bs e) \<in> insert (x_max e) (snd ` set bs)"
proof (induction bs arbitrary: e)
  case Nil
  then show ?case by simp
next
  case (Cons b bs)
  have "max (x_max e) (snd b) = x_max e \<or> max (x_max e) (snd b) = snd b" by linarith
  with Cons.IH [of "extent_step b e"] show ?case by auto
qed

lemma shape_extent_bounds:
  assumes "b \<in> set sh"
  shows "y_min (shape_extent sh) \<le> fst b \<and> fst b \<le> y_max (shape_extent sh) \<and>
         x_min (shape_extent sh) \<le> snd b \<and> snd b \<le> x_max (shape_extent sh)"
proof (cases sh)
  case Nil
  then show ?thesis using assms by simp
next
  case (Cons b0 rest)
  let ?e0 = "\<lparr> y_min = fst b0, y_max = fst b0, x_min = snd b0, x_max = snd b0 \<rparr>"
  from fold_extent_step_bounds [of rest ?e0] assms Cons show ?thesis
    by (auto simp: shape_extent_def)
qed

lemma shape_extent_attained:
  assumes "sh \<noteq> []"
  shows "y_min (shape_extent sh) \<in> fst ` set sh \<and> y_max (shape_extent sh) \<in> fst ` set sh \<and>
         x_min (shape_extent sh) \<in> snd ` set sh \<and> x_max (shape_extent sh) \<in> snd ` set sh"
proof (cases sh)
  case Nil
  then show ?thesis using assms by simp
next
  case (Cons b0 rest)
  let ?e0 = "\<lparr> y_min = fst b0, y_max = fst b0, x_min = snd b0, x_max = snd b0 \<rparr>"
  from fold_extent_step_y_min [of rest ?e0] fold_extent_step_y_max [of rest ?e0]
    fold_extent_step_x_min [of rest ?e0] fold_extent_step_x_max [of rest ?e0] Cons
  show ?thesis
    by (simp add: shape_extent_def)
qed

lemma shape_extent_y_min:
  assumes "sh \<noteq> []"
  shows "y_min (shape_extent sh) = Min (fst ` set sh)"
proof -
  have "Min (fst ` set sh) = y_min (shape_extent sh)"
  proof (rule Min_eqI)
    show "finite (fst ` set sh)" by simp
    show "y_min (shape_extent sh) \<le> v" if "v \<in> fst ` set sh" for v
      using that shape_extent_bounds [of _ sh] by auto
    show "y_min (shape_extent sh) \<in> fst ` set sh"
      using shape_extent_attained [OF assms] by simp
  qed
  then show ?thesis by simp
qed

lemma shapes_nonempty: "k < n_shapes \<Longrightarrow> shapes ! k \<noteq> []"
proof -
  have "list_all (\<lambda>rots. rots \<noteq> []) shapes" by (simp add: shapes_def)
  then show "k < n_shapes \<Longrightarrow> shapes ! k \<noteq> []"
    by (simp add: list_all_length n_shapes_def)
qed

lemma get_shape_length: "piece_ok p \<Longrightarrow> length (get_shape p) = 4"
proof -
  assume ok: "piece_ok p"
  have all: "list_all (list_all (\<lambda>sh. length sh = 4)) shapes" by (simp add: shapes_def)
  have k: "shape p < length shapes" using ok by (simp add: piece_ok_def n_shapes_def)
  have r: "nat (rotation p) < length (shapes ! shape p)" using ok by (simp add: piece_ok_def) linarith
  from all k have "list_all (\<lambda>sh. length sh = 4) (shapes ! shape p)"
    by (simp add: list_all_length)
  with r show ?thesis by (simp add: list_all_length get_shape_def)
qed

lemma get_shape_nonempty: "piece_ok p \<Longrightarrow> get_shape p \<noteq> []"
  using get_shape_length [of p] by auto

section \<open>Spawning\<close>

lemma random_shape_range:
  "0 \<le> fst (random_shape e1 e2 s) \<and> fst (random_shape e1 e2 s) < int n_shapes"
proof -
  have a: "0 \<le> uniform_int_distribution 0 (int n_shapes) e1 \<and>
           uniform_int_distribution 0 (int n_shapes) e1 \<le> int n_shapes"
    by (rule uniform_int_distribution_range) simp
  have b: "0 \<le> uniform_int_distribution 0 (int n_shapes - 1) e2 \<and>
           uniform_int_distribution 0 (int n_shapes - 1) e2 \<le> int n_shapes - 1"
    by (rule uniform_int_distribution_range) (simp add: n_shapes_eq)
  show ?thesis using a b by (auto simp: random_shape_def Let_def)
qed

lemma random_shape_snd: "snd (random_shape e1 e2 s) = s\<lparr>prev_shape := fst (random_shape e1 e2 s)\<rparr>"
  by (simp add: random_shape_def Let_def)

lemma get_extent_location [simp]: "get_extent (p\<lparr>location := l\<rparr>) = get_extent p"
  by (simp add: get_extent_def get_shape_def)

lemma get_shape_location [simp]: "get_shape (p\<lparr>location := l\<rparr>) = get_shape p"
  by (simp add: get_shape_def)

lemma new_piece_cases:
  obtains (too_small) s2 where "new_piece r s = Inl (runtime_error, s2)"
      and "board s2 = board s" and "score s2 = score s"
  | (placed) p where "piece_ok p" and "1 \<le> color p" and "color p \<le> 7"
      and "fst (location p) + y_min (get_extent p) = invisible_lines"
      and "fst (location p) + y_max (get_extent p) < board_height s"
      and "0 \<le> snd (location p) + x_min (get_extent p)"
      and "snd (location p) + x_max (get_extent p) < width s"
      and "new_piece r s =
            (if blocks_hit (s\<lparr>curr_piece := p, prev_shape := int (shape p)\<rparr>) (location p) (get_shape p)
             then Inl (gameover, s\<lparr>curr_piece := p, prev_shape := int (shape p)\<rparr>)
             else Inr (update_piece (color p) (s\<lparr>curr_piece := p, prev_shape := int (shape p)\<rparr>)))"
proof -
  define shp where "shp = fst (random_shape (shape_e1 r) (shape_e2 r) s)"
  define p2 where "p2 = (curr_piece s)\<lparr>shape := nat shp,
      color := uniform_int_distribution 1 7 (color_e r),
      rotation := uniform_int_distribution 0 (int (length (shapes ! nat shp)) - 1) (rot_e r)\<rparr>"
  define s2 where "s2 = s\<lparr>prev_shape := shp, curr_piece := p2\<rparr>"
  define x_lo where "x_lo = - x_min (get_extent p2)"
  define x_hi where "x_hi = width s - x_max (get_extent p2) - 1"
  define y where "y = invisible_lines - y_min (get_extent p2)"
  define p3 where "p3 = p2\<lparr>location := (y, uniform_int_distribution x_lo x_hi (x_e r))\<rparr>"
  define s3 where "s3 = s\<lparr>prev_shape := shp, curr_piece := p3\<rparr>"
  have shp: "0 \<le> shp" "shp < int n_shapes"
    using random_shape_range [of "shape_e1 r" "shape_e2 r" s] by (simp_all add: shp_def)
  have rs: "random_shape (shape_e1 r) (shape_e2 r) s = (shp, s\<lparr>prev_shape := shp\<rparr>)"
    using random_shape_snd [of "shape_e1 r" "shape_e2 r" s]
    by (simp add: shp_def prod_eq_iff)
  have unfold: "new_piece r s =
     (if x_lo > x_hi \<or> y + y_max (get_extent p2) \<ge> board_height s then Inl (runtime_error, s2)
      else if blocks_hit s3 (location p3) (get_shape p3) then Inl (gameover, s3)
      else Inr (update_piece (color p3) s3))"
    by (simp add: new_piece_def rs Let_def p2_def s2_def x_lo_def x_hi_def y_def p3_def s3_def
        board_height_def)
  have s3: "s3 = s\<lparr>curr_piece := p3, prev_shape := int (shape p3)\<rparr>"
    using shp(1) by (simp add: s3_def p3_def p2_def)
  show thesis
  proof (cases "x_lo > x_hi \<or> y + y_max (get_extent p2) \<ge> board_height s")
    case True
    show thesis
    proof (rule too_small)
      show "new_piece r s = Inl (runtime_error, s2)" using True unfold by simp
      show "board s2 = board s" by (simp add: s2_def)
      show "score s2 = score s" by (simp add: s2_def)
    qed
  next
    case False
    have k: "nat shp < n_shapes" using shp by simp
    have "shapes ! nat shp \<noteq> []" using k by (rule shapes_nonempty)
    then have n: "0 \<le> int (length (shapes ! nat shp)) - 1"
      by (cases "shapes ! nat shp") simp_all
    have rot: "0 \<le> rotation p2 \<and> rotation p2 \<le> int (length (shapes ! nat shp)) - 1"
      using uniform_int_distribution_range [OF n, of "rot_e r"] by (simp add: p2_def)
    have col: "1 \<le> color p2 \<and> color p2 \<le> 7"
      using uniform_int_distribution_range [of 1 7 "color_e r"] by (simp add: p2_def)
    have x: "x_lo \<le> snd (location p3) \<and> snd (location p3) \<le> x_hi"
      using uniform_int_distribution_range [of x_lo x_hi "x_e r"] False by (simp add: p3_def)
    show thesis
    proof (rule placed [of p3])
      show "piece_ok p3" using k rot by (simp add: piece_ok_def p3_def p2_def)
      show "1 \<le> color p3" "color p3 \<le> 7" using col by (simp_all add: p3_def)
      show "fst (location p3) + y_min (get_extent p3) = invisible_lines"
        by (simp add: p3_def y_def)
      show "fst (location p3) + y_max (get_extent p3) < board_height s"
        using False by (simp add: p3_def)
      show "0 \<le> snd (location p3) + x_min (get_extent p3)"
        using x by (simp add: p3_def x_lo_def)
      show "snd (location p3) + x_max (get_extent p3) < width s"
        using x by (simp add: p3_def x_hi_def)
      show "new_piece r s =
            (if blocks_hit (s\<lparr>curr_piece := p3, prev_shape := int (shape p3)\<rparr>) (location p3) (get_shape p3)
             then Inl (gameover, s\<lparr>curr_piece := p3, prev_shape := int (shape p3)\<rparr>)
             else Inr (update_piece (color p3) (s\<lparr>curr_piece := p3, prev_shape := int (shape p3)\<rparr>)))"
        using False unfold by (simp add: s3)
    qed
  qed
qed

lemma blocks_hit_iff:
  "blocks_hit s loc sh \<longleftrightarrow> (\<exists>c\<in>set (map (block_add loc) sh). board_cell s c 0 0 \<noteq> 0)"
  by (induction sh) auto

lemma board_cell_frame [simp]:
  "board_cell (s\<lparr>curr_piece := p, prev_shape := k\<rparr>) = board_cell s"
  by (intro ext) (simp add: board_cell_def)

lemma new_piece_outcomes:
  assumes "new_piece r s = Inr s' \<or> new_piece r s = Inl (gameover, s')"
  shows "piece_ok (curr_piece s')"
    and "fst (location (curr_piece s')) + y_min (get_extent (curr_piece s')) = invisible_lines"
    and "fst (location (curr_piece s')) + y_max (get_extent (curr_piece s')) < board_height s"
    and "0 \<le> snd (location (curr_piece s')) + x_min (get_extent (curr_piece s'))"
    and "snd (location (curr_piece s')) + x_max (get_extent (curr_piece s')) < width s"
    and "width s' = width s" and "height s' = height s" and "score s' = score s"
    and "tick_cnt s' = tick_cnt s"
    and "new_piece r s = Inl (gameover, s') \<Longrightarrow>
           board s' = board s \<and> (\<exists>c\<in>set (piece_cells (curr_piece s')). board_cell s c 0 0 \<noteq> 0)"
    and "new_piece r s = Inr s' \<Longrightarrow>
           (\<forall>c\<in>set (piece_cells (curr_piece s')). board_cell s c 0 0 = 0) \<and>
           s' = update_piece (color (curr_piece s')) (s'\<lparr>board := board s\<rparr>)"
proof -
  have "piece_ok (curr_piece s')
    \<and> fst (location (curr_piece s')) + y_min (get_extent (curr_piece s')) = invisible_lines
    \<and> fst (location (curr_piece s')) + y_max (get_extent (curr_piece s')) < board_height s
    \<and> 0 \<le> snd (location (curr_piece s')) + x_min (get_extent (curr_piece s'))
    \<and> snd (location (curr_piece s')) + x_max (get_extent (curr_piece s')) < width s
    \<and> width s' = width s \<and> height s' = height s \<and> score s' = score s
    \<and> tick_cnt s' = tick_cnt s
    \<and> (new_piece r s = Inl (gameover, s') \<longrightarrow>
           board s' = board s \<and> (\<exists>c\<in>set (piece_cells (curr_piece s')). board_cell s c 0 0 \<noteq> 0))
    \<and> (new_piece r s = Inr s' \<longrightarrow>
           (\<forall>c\<in>set (piece_cells (curr_piece s')). board_cell s c 0 0 = 0) \<and>
           s' = update_piece (color (curr_piece s')) (s'\<lparr>board := board s\<rparr>))"
  proof (cases r s rule: new_piece_cases)
    case (too_small s2)
    then show ?thesis using assms by simp
  next
    case (placed p)
    let ?s3 = "s\<lparr>curr_piece := p, prev_shape := int (shape p)\<rparr>"
    show ?thesis
    proof (cases "blocks_hit ?s3 (location p) (get_shape p)")
      case True
      then have eq: "new_piece r s = Inl (gameover, ?s3)" using placed(8) by simp
      then have s': "s' = ?s3" using assms by simp
      have "\<exists>c\<in>set (piece_cells p). board_cell s c 0 0 \<noteq> 0"
        using True by (simp add: blocks_hit_iff piece_cells_def)
      then show ?thesis using placed(1-7) eq by (simp add: s')
    next
      case False
      then have eq: "new_piece r s = Inr (update_piece (color p) ?s3)" using placed(8) by simp
      then have s': "s' = update_piece (color p) ?s3" using assms by simp
      have "\<forall>c\<in>set (piece_cells p). board_cell s c 0 0 = 0"
        using False by (simp add: blocks_hit_iff piece_cells_def)
      moreover have "update_piece (color p) ?s3 =
          update_piece (color p) ((update_piece (color p) ?s3)\<lparr>board := board s\<rparr>)"
        by (simp add: update_piece_eq)
      ultimately show ?thesis using placed(1-7) eq by (simp add: s')
    qed
  qed
  then show "piece_ok (curr_piece s')"
    and "fst (location (curr_piece s')) + y_min (get_extent (curr_piece s')) = invisible_lines"
    and "fst (location (curr_piece s')) + y_max (get_extent (curr_piece s')) < board_height s"
    and "0 \<le> snd (location (curr_piece s')) + x_min (get_extent (curr_piece s'))"
    and "snd (location (curr_piece s')) + x_max (get_extent (curr_piece s')) < width s"
    and "width s' = width s" and "height s' = height s" and "score s' = score s"
    and "tick_cnt s' = tick_cnt s"
    and "new_piece r s = Inl (gameover, s') \<Longrightarrow>
           board s' = board s \<and> (\<exists>c\<in>set (piece_cells (curr_piece s')). board_cell s c 0 0 \<noteq> 0)"
    and "new_piece r s = Inr s' \<Longrightarrow>
           (\<forall>c\<in>set (piece_cells (curr_piece s')). board_cell s c 0 0 = 0) \<and>
           s' = update_piece (color (curr_piece s')) (s'\<lparr>board := board s\<rparr>)"
    by blast+
qed

lemma piece_cells_extent:
  assumes "c \<in> set (piece_cells p)"
  shows "fst (location p) + y_min (get_extent p) \<le> fst c"
    and "fst c \<le> fst (location p) + y_max (get_extent p)"
    and "snd (location p) + x_min (get_extent p) \<le> snd c"
    and "snd c \<le> snd (location p) + x_max (get_extent p)"
proof -
  from assms obtain blk where blk: "blk \<in> set (get_shape p)" and c: "c = block_add (location p) blk"
    by (auto simp: piece_cells_def)
  from shape_extent_bounds [OF blk]
  show "fst (location p) + y_min (get_extent p) \<le> fst c"
    and "fst c \<le> fst (location p) + y_max (get_extent p)"
    and "snd (location p) + x_min (get_extent p) \<le> snd c"
    and "snd c \<le> snd (location p) + x_max (get_extent p)"
    by (simp_all add: c block_add_def get_extent_def)
qed

lemma piece_cells_top:
  assumes "piece_ok p"
  shows "Min (fst ` set (piece_cells p)) = fst (location p) + y_min (get_extent p)"
proof (rule Min_eqI)
  show "finite (fst ` set (piece_cells p))" by simp
  show "fst (location p) + y_min (get_extent p) \<le> v" if "v \<in> fst ` set (piece_cells p)" for v
    using that piece_cells_extent(1) [of _ p] by auto
  have "y_min (shape_extent (get_shape p)) \<in> fst ` set (get_shape p)"
    using shape_extent_attained [OF get_shape_nonempty [OF assms]] by simp
  then obtain blk where "blk \<in> set (get_shape p)" and "y_min (shape_extent (get_shape p)) = fst blk"
    by auto
  then have "fst (block_add (location p) blk) = fst (location p) + y_min (get_extent p)"
    and "block_add (location p) blk \<in> set (piece_cells p)"
    by (simp_all add: block_add_def get_extent_def piece_cells_def)
  then show "fst (location p) + y_min (get_extent p) \<in> fst ` set (piece_cells p)"
    by (metis imageI)
qed

lemma blocks_hit_cc_iff:
  "blocks_hit_cc s loc sh \<longleftrightarrow> (\<exists>c\<in>set (map (block_add loc) sh). board_cell_cc s c 0 0 \<noteq> 0)"
  by (induction sh) auto

lemma update_piece_cc_eq:
  "update_piece_cc c s =
     s\<lparr>board_cc := fold (\<lambda>q. set_cell q c) (piece_cells_cc (curr_piece_cc s)) (board_cc s)\<rparr>"
  by (simp add: update_piece_cc_def piece_cells_cc_def fold_map comp_def Let_def)

lemma piece_cells_cc_extent:
  assumes "c \<in> set (piece_cells_cc p)"
  shows "snd (location_cc p) + x_min (get_extent_cc p) \<le> snd c"
    and "snd c \<le> snd (location_cc p) + x_max (get_extent_cc p)"
proof -
  from assms obtain blk where blk: "blk \<in> set (shape_cc p)"
    and c: "c = block_add (location_cc p) blk"
    by (auto simp: piece_cells_cc_def)
  from shape_extent_bounds [OF blk]
  show "snd (location_cc p) + x_min (get_extent_cc p) \<le> snd c"
    and "snd c \<le> snd (location_cc p) + x_max (get_extent_cc p)"
    by (simp_all add: c block_add_def get_extent_cc_def)
qed

lemma new_piece_cc_outcomes:
  assumes "new_piece_cc r s = Inr s' \<or> new_piece_cc r s = Inl (gameover, s')"
  shows "0 \<le> snd (location_cc (curr_piece_cc s')) + x_min (get_extent_cc (curr_piece_cc s'))"
    and "snd (location_cc (curr_piece_cc s')) + x_max (get_extent_cc (curr_piece_cc s')) < width_cc s"
    and "width_cc s' = width_cc s" and "score_cc s' = score_cc s"
    and "new_piece_cc r s = Inl (gameover, s') \<Longrightarrow>
           board_cc s' = board_cc s \<and>
           (\<exists>c\<in>set (piece_cells_cc (curr_piece_cc s')). board_cell_cc s c 0 0 \<noteq> 0)"
    and "new_piece_cc r s = Inr s' \<Longrightarrow>
           (\<forall>c\<in>set (piece_cells_cc (curr_piece_cc s')). board_cell_cc s c 0 0 = 0)"
proof -
  define idx where "idx = nat (uniform_int_distribution 0 (int n_shapes_cc - 1) (shape_e_cc r))"
  define p2 where "p2 = piece_rotate_cc (nat (uniform_int_distribution 0 3 (rot_e_cc r)))
      ((curr_piece_cc s)\<lparr>shape_index_cc := idx, shape_cc := shapes_cc ! idx,
                           color_cc := uniform_int_distribution 1 7 (color_e_cc r)\<rparr>)"
  define x_lo where "x_lo = - x_min (get_extent_cc p2)"
  define x_hi where "x_hi = width_cc s - x_max (get_extent_cc p2) - 1"
  define p3 where "p3 = p2\<lparr>location_cc :=
      (- y_min (get_extent_cc p2), uniform_int_distribution x_lo x_hi (x_e_cc r))\<rparr>"
  define s2 where "s2 = s\<lparr>curr_piece_cc := p3\<rparr>"
  have ext3: "get_extent_cc p3 = get_extent_cc p2" by (simp add: p3_def get_extent_cc_def)
  have unfold: "new_piece_cc r s =
     (if x_lo > x_hi \<or> - y_min (get_extent_cc p2) + y_max (get_extent_cc p2) \<ge> height_cc s
      then Inl (runtime_error, s\<lparr>curr_piece_cc := p2\<rparr>)
      else if blocks_hit_cc s2 (location_cc p3) (shape_cc p3) then Inl (gameover, s2)
      else Inr (update_piece_cc (color_cc p3) s2))"
    by (simp add: new_piece_cc_def Let_def idx_def p2_def x_lo_def x_hi_def p3_def s2_def)
  have fits: "x_lo \<le> x_hi" using assms unfold by (auto split: if_splits)
  have x: "x_lo \<le> snd (location_cc p3) \<and> snd (location_cc p3) \<le> x_hi"
    using uniform_int_distribution_range [OF fits, of "x_e_cc r"] by (simp add: p3_def)
  have cell: "board_cell_cc s2 = board_cell_cc s"
    by (intro ext) (simp add: board_cell_cc_def s2_def)
  have "0 \<le> snd (location_cc (curr_piece_cc s')) + x_min (get_extent_cc (curr_piece_cc s'))
    \<and> snd (location_cc (curr_piece_cc s')) + x_max (get_extent_cc (curr_piece_cc s')) < width_cc s
    \<and> width_cc s' = width_cc s \<and> score_cc s' = score_cc s
    \<and> (new_piece_cc r s = Inl (gameover, s') \<longrightarrow>
           board_cc s' = board_cc s \<and>
           (\<exists>c\<in>set (piece_cells_cc (curr_piece_cc s')). board_cell_cc s c 0 0 \<noteq> 0))
    \<and> (new_piece_cc r s = Inr s' \<longrightarrow>
           (\<forall>c\<in>set (piece_cells_cc (curr_piece_cc s')). board_cell_cc s c 0 0 = 0))"
  proof (cases "blocks_hit_cc s2 (location_cc p3) (shape_cc p3)")
    case True
    then have s': "new_piece_cc r s = Inl (gameover, s2)" "s' = s2"
      using assms unfold by (auto split: if_splits)
    have "\<exists>c\<in>set (piece_cells_cc p3). board_cell_cc s c 0 0 \<noteq> 0"
      using True by (simp add: blocks_hit_cc_iff piece_cells_cc_def cell)
    then show ?thesis using x s'(1)
      by (simp add: s'(2) s2_def ext3 x_lo_def x_hi_def)
  next
    case False
    then have s': "new_piece_cc r s = Inr (update_piece_cc (color_cc p3) s2)"
      "s' = update_piece_cc (color_cc p3) s2"
      using assms unfold by (auto split: if_splits)
    have "\<forall>c\<in>set (piece_cells_cc p3). board_cell_cc s c 0 0 = 0"
      using False by (simp add: blocks_hit_cc_iff piece_cells_cc_def cell)
    then show ?thesis using x s'(1)
      by (simp add: s'(2) s2_def ext3 x_lo_def x_hi_def update_piece_cc_eq)
  qed
  then show "0 \<le> snd (location_cc (curr_piece_cc s')) + x_min (get_extent_cc (curr_piece_cc s'))"
    and "snd (location_cc (curr_piece_cc s')) + x_max (get_extent_cc (curr_piece_cc s')) < width_cc s"
    and "width_cc s' = width_cc s" and "score_cc s' = score_cc s"
    and "new_piece_cc r s = Inl (gameover, s') \<Longrightarrow>
           board_cc s' = board_cc s \<and>
           (\<exists>c\<in>set (piece_cells_cc (curr_piece_cc s')). board_cell_cc s c 0 0 \<noteq> 0)"
    and "new_piece_cc r s = Inr s' \<Longrightarrow>
           (\<forall>c\<in>set (piece_cells_cc (curr_piece_cc s')). board_cell_cc s c 0 0 = 0)"
    by blast+
qed


lemma tick_gameover:
  assumes "tick r s = Inl (e, s')"
  shows "\<exists>s0. new_piece r s0 = Inl (e, s')"
  using assms by (auto simp: tick_def Let_def split: if_splits prod.splits)

lemma loop_body_error:
  assumes "loop_body r k s = Some (Inl (Some e, s'))"
  shows "\<exists>s0. new_piece r s0 = Inl (e, s')"
proof (cases "tick r s")
  case (Inl a)
  then have "tick r s = Inl (e, s')" using assms by (cases a) (simp add: loop_body_def)
  then show ?thesis by (rule tick_gameover)
next
  case (Inr s1)
  then show ?thesis using assms
    by (auto simp: loop_body_def split: option.splits if_splits)
qed

lemma tick_cc_gameover:
  assumes "tick_cc r s = Inl (e, s')"
  shows "\<exists>s0. new_piece_cc r s0 = Inl (e, s')"
  using assms by (auto simp: tick_cc_def Let_def split: if_splits prod.splits)

lemma hard_drop_cc_gameover:
  assumes "hard_drop_cc r s = Some (Inl (e, s'))"
  shows "\<exists>s0. new_piece_cc r s0 = Inl (e, s')"
  using assms by (auto simp: hard_drop_cc_def Let_def split: option.splits)

section \<open>The score\<close>






lemma fold_insert_if:
  "fold (\<lambda>i R. if P i then insert i R else R) xs R0 = R0 \<union> {i \<in> set xs. P i}"
  by (induction xs arbitrary: R0) auto

lemma lines_to_remove_eq:
  "lines_to_remove s =
     {i. fst (location (curr_piece s)) + y_min (get_extent (curr_piece s)) \<le> i \<and>
         i \<le> fst (location (curr_piece s)) + y_max (get_extent (curr_piece s)) \<and>
         list_all (\<lambda>c. c \<noteq> 0) (board s ! nat i)}"
  by (auto simp: lines_to_remove_def Let_def fold_insert_if)

lemma lines_to_remove_finite [simp]: "finite (lines_to_remove s)"
proof -
  have "lines_to_remove s \<subseteq> {fst (location (curr_piece s)) + y_min (get_extent (curr_piece s)) ..
      fst (location (curr_piece s)) + y_max (get_extent (curr_piece s))}"
    by (auto simp: lines_to_remove_eq)
  then show ?thesis by (rule finite_subset) simp
qed

lemma clear_line_score [simp]: "score (clear_line y s) = score s"
  by (simp add: clear_line_def)






section \<open>The invariant is kept\<close>

lemma clear_row_length [simp]: "length (clear_row w r) = length r"
proof -
  have "length (fold (\<lambda>x r. r[x := 0::int]) xs r) = length r" for xs
    by (induction xs arbitrary: r) simp_all
  then show ?thesis by (simp add: clear_row_def)
qed

lemma copy_row_length [simp]: "length (copy_row w src dst) = length dst"
proof -
  have "length (fold (\<lambda>x r. r[x := src ! x]) xs dst) = length dst" for xs
    by (induction xs arbitrary: dst) simp_all
  then show ?thesis by (simp add: copy_row_def)
qed

lemma rect_update_same_length:
  assumes "rect h w b" and "i < length b \<Longrightarrow> length r = length (b ! i)"
  shows "rect h w (b[i := r])"
proof (cases "i < length b")
  case True
  then have "length r = w" using assms by (simp add: rect_def list_all_length)
  with assms(1) show ?thesis by (rule rect_update)
next
  case False
  then have "length b \<le> i" by simp
  then have "b[i := r] = b" by (rule list_update_beyond)
  then show ?thesis using assms(1) by simp
qed

lemma compact_loop_rect:
  "rect h w0 b \<Longrightarrow> rect h w0 (compact_loop w lo R y moved b)"
proof (induction w lo R y moved b rule: compact_loop.induct)
  case (1 w lo R y moved b)
  show ?case
  proof (cases "y \<ge> lo")
    case False
    then show ?thesis using 1(3) by (simp add: compact_loop.simps [of w lo R y])
  next
    case True
    let ?from = "find_from R moved (y - 1)"
    show ?thesis
    proof (cases "?from \<ge> 0")
      case t: True
      have r: "rect h w0 (b[nat y := copy_row w (b ! nat ?from) (b ! nat y)])"
        using 1(3) by (rule rect_update_same_length) simp
      from 1(1) [OF True refl t r] show ?thesis
        using True t by (simp add: compact_loop.simps [of w lo R y] Let_def)
    next
      case f: False
      have r: "rect h w0 (b[nat y := clear_row w (b ! nat y)])"
        using 1(3) by (rule rect_update_same_length) simp
      from 1(2) [OF True refl f r] show ?thesis
        using True f by (simp add: compact_loop.simps [of w lo R y] Let_def)
    qed
  qed
qed

lemma try_remove_line_board_ok:
  assumes "board_ok s"
  shows "board_ok (try_remove_line s)"
proof (cases "lines_to_remove s = {}")
  case True
  then show ?thesis using assms by (simp add: try_remove_line_def)
next
  case False
  let ?h = "nat (board_height s)" and ?w = "nat (width s)"
  let ?b = "compact_loop ?w (invisible_lines + 1) (lines_to_remove s) (Max (lines_to_remove s))
      (replicate ?h False) (board s)"
  have "rect ?h ?w ?b" using assms by (simp add: board_ok_rect compact_loop_rect)
  then have "rect ?h ?w (?b[nat invisible_lines := clear_row ?w (?b ! nat invisible_lines)])"
    by (rule rect_update_same_length) simp
  then show ?thesis using False
    by (simp add: try_remove_line_def Let_def clear_line_def board_ok_rect board_height_def)
qed

lemma try_remove_line_fields [simp]:
  "height (try_remove_line s) = height s"
  "width (try_remove_line s) = width s"
  "tick_cnt (try_remove_line s) = tick_cnt s"
  "curr_piece (try_remove_line s) = curr_piece s"
  "prev_shape (try_remove_line s) = prev_shape s"
  by (simp_all add: try_remove_line_def Let_def clear_line_def)

lemma new_piece_state_ok:
  assumes "board_ok s" and "new_piece r s = Inr s'"
  shows "state_ok s'"
proof -
  note o = new_piece_outcomes [OF disjI1 [OF assms(2)]]
  let ?p = "curr_piece s'"
  let ?s0 = "s'\<lparr>board := board s\<rparr>"
  have bh: "board_height s' = board_height s" using o(7) by (simp add: board_height_def)
  have r0: "rect (nat (board_height ?s0)) (nat (width ?s0)) (board ?s0)"
    using assms(1) o(6) bh by (simp add: board_ok_rect board_height_def)
  have ins: "\<forall>c\<in>set (piece_cells (curr_piece ?s0)).
      inside (nat (board_height ?s0)) (nat (width ?s0)) c"
  proof
    fix c assume c: "c \<in> set (piece_cells (curr_piece ?s0))"
    then have c': "c \<in> set (piece_cells ?p)" by simp
    have "0 \<le> fst c" using piece_cells_extent(1) [OF c'] o(2) by (simp add: invisible_lines_def)
    moreover have "fst c < board_height s" using piece_cells_extent(2) [OF c'] o(3) by linarith
    moreover have "0 \<le> snd c" using piece_cells_extent(3) [OF c'] o(4) by linarith
    moreover have "snd c < width s" using piece_cells_extent(4) [OF c'] o(5) by linarith
    ultimately show "inside (nat (board_height ?s0)) (nat (width ?s0)) c"
      using o(6) bh by (simp add: inside_def board_height_def)
  qed
  have eq: "s' = update_piece (color ?p) ?s0" using o(11) [OF assms(2)] by blast
  have b: "board_ok (update_piece (color ?p) ?s0)"
    using update_piece_cell(1) [OF r0 ins, of "color ?p"] by (simp add: board_ok_rect)
  have c: "\<forall>c\<in>set (piece_cells ?p).
      check_boundary (update_piece (color ?p) ?s0) c 0 0 \<and>
      board_cell (update_piece (color ?p) ?s0) c 0 0 = color ?p"
  proof
    fix c assume c: "c \<in> set (piece_cells ?p)"
    then have i: "inside (nat (board_height ?s0)) (nat (width ?s0)) c" using ins by simp
    have "check_boundary (update_piece (color ?p) ?s0) c 0 0"
      using i by (simp add: check_boundary_inside0)
    moreover have "board_cell (update_piece (color ?p) ?s0) c 0 0 = color ?p"
      using update_piece_cell(2) [OF r0 ins i, of "color ?p"] c by (simp add: board_cell0)
    ultimately show "check_boundary (update_piece (color ?p) ?s0) c 0 0 \<and>
      board_cell (update_piece (color ?p) ?s0) c 0 0 = color ?p" ..
  qed
  have "state_ok (update_piece (color ?p) ?s0)"
    using b c o(1) by (simp add: state_ok_def list_all_iff)
  then show ?thesis using eq by simp
qed

lemma state_ok_tick_cnt [simp]: "state_ok (s\<lparr>tick_cnt := n\<rparr>) = state_ok s"
  by (simp add: state_ok_def board_ok_def board_height_def check_boundary_def board_cell_def)

lemma tick_state_ok:
  assumes "state_ok s" and "tick r s = Inr s'"
  shows "state_ok s'"
proof (cases "tick_cnt s + 1 \<ge> move_ticks")
  case False
  then have "s' = s\<lparr>tick_cnt := tick_cnt s + 1\<rparr>" using assms(2) by (simp add: tick_def Let_def)
  then show ?thesis using assms(1) by simp
next
  case True
  let ?m = "move_piece 1 0 (s\<lparr>tick_cnt := 0\<rparr>)"
  have ok: "state_ok (snd ?m)" using assms(1) by (simp add: move_piece_state_ok)
  show ?thesis
  proof (cases "fst ?m")
    case t: True
    then have "s' = snd ?m" using True assms(2) by (simp add: tick_def Let_def split_beta)
    then show ?thesis using ok by simp
  next
    case False
    then have "new_piece r (try_remove_line (snd ?m)) = Inr s'"
      using True assms(2) by (simp add: tick_def Let_def split_beta)
    moreover have "board_ok (try_remove_line (snd ?m))"
      using ok by (simp add: state_ok_def try_remove_line_board_ok)
    ultimately show ?thesis by (rule new_piece_state_ok [rotated])
  qed
qed

lemma tetris_init_state_ok:
  assumes "tetris_init h w p0 r = Inr s"
  shows "state_ok s"
proof (rule new_piece_state_ok)
  show "new_piece r \<lparr> height = h, width = w,
         board = replicate (nat (h + invisible_lines)) (replicate (nat w) 0),
         curr_piece = p0, tick_cnt = 0, prev_shape = - 1, score = 0 \<rparr> = Inr s"
    using assms by (simp add: tetris_init_def)
  show "board_ok \<lparr> height = h, width = w,
         board = replicate (nat (h + invisible_lines)) (replicate (nat w) 0),
         curr_piece = p0, tick_cnt = 0, prev_shape = - 1, score = 0 \<rparr>"
    by (simp add: board_ok_def board_height_def list_all_length)
qed

section \<open>Dropping the piece\<close>

lemma fall_state_ok: "state_ok s \<Longrightarrow> state_ok (fall s)"
  by (simp add: fall_def move_piece_state_ok)

lemma funpow_fall_state_ok: "state_ok s \<Longrightarrow> state_ok ((fall ^^ n) s)"
  by (induction n) (simp_all add: fall_state_ok)

lemma drop_loop_unroll:
  assumes "drop_loop s = Some d"
  shows "\<exists>n. (\<forall>k<n. fst (move_piece 1 0 ((fall ^^ k) s))) \<and>
             \<not> fst (move_piece 1 0 ((fall ^^ n) s)) \<and> d = fall ((fall ^^ n) s)"
proof (rule drop_loop.raw_induct [where P = "\<lambda>s d. \<exists>n. (\<forall>k<n. fst (move_piece 1 0 ((fall ^^ k) s))) \<and>
             \<not> fst (move_piece 1 0 ((fall ^^ n) s)) \<and> d = fall ((fall ^^ n) s)", OF _ assms])
  fix f :: "tetris \<Rightarrow> tetris option" and t t'
  assume IH: "\<And>s d. f s = Some d \<Longrightarrow> \<exists>n. (\<forall>k<n. fst (move_piece 1 0 ((fall ^^ k) s))) \<and>
             \<not> fst (move_piece 1 0 ((fall ^^ n) s)) \<and> d = fall ((fall ^^ n) s)"
    and step: "(let r = move_piece 1 0 t in if fst r then f (snd r) else Some (snd r)) = Some t'"
  show "\<exists>n. (\<forall>k<n. fst (move_piece 1 0 ((fall ^^ k) t))) \<and>
             \<not> fst (move_piece 1 0 ((fall ^^ n) t)) \<and> t' = fall ((fall ^^ n) t)"
  proof (cases "fst (move_piece 1 0 t)")
    case False
    then have "t' = fall t" using step by (simp add: Let_def fall_def)
    then have "(\<forall>k<0. fst (move_piece 1 0 ((fall ^^ k) t))) \<and>
             \<not> fst (move_piece 1 0 ((fall ^^ 0) t)) \<and> t' = fall ((fall ^^ 0) t)"
      using False by simp
    then show ?thesis ..
  next
    case True
    then have "f (fall t) = Some t'" using step by (simp add: Let_def fall_def)
    from IH [OF this] obtain n where n: "\<forall>k<n. fst (move_piece 1 0 ((fall ^^ k) (fall t)))"
      "\<not> fst (move_piece 1 0 ((fall ^^ n) (fall t)))" "t' = fall ((fall ^^ n) (fall t))"
      by blast
    have "\<forall>k<Suc n. fst (move_piece 1 0 ((fall ^^ k) t))"
    proof (intro allI impI)
      fix k assume "k < Suc n"
      show "fst (move_piece 1 0 ((fall ^^ k) t))"
      proof (cases k)
        case 0
        then show ?thesis using True by simp
      next
        case (Suc j)
        then have "j < n" using \<open>k < Suc n\<close> by simp
        then show ?thesis using n(1) Suc by (simp add: funpow_swap1)
      qed
    qed
    moreover have "\<not> fst (move_piece 1 0 ((fall ^^ Suc n) t))"
      using n(2) by (simp add: funpow_swap1)
    moreover have "t' = fall ((fall ^^ Suc n) t)"
      using n(3) by (simp add: funpow_swap1)
    ultimately show ?thesis by blast
  qed
qed

lemma move_piece_down_location:
  assumes "state_ok s" and "fst (move_piece 1 0 s)"
  shows "curr_piece (fall s) =
     (curr_piece s)\<lparr>location := (fst (location (curr_piece s)) + 1, snd (location (curr_piece s)))\<rparr>"
    and "board_height (fall s) = board_height s"
  by (simp_all add: fall_def move_piece_success [OF assms] board_height_def)

lemma head_cell_below_floor:
  assumes "state_ok s"
  shows "fst (location (curr_piece s)) + fst (hd (get_shape (curr_piece s))) < board_height s"
proof -
  have ne: "get_shape (curr_piece s) \<noteq> []"
    using assms by (simp add: state_ok_def get_shape_nonempty)
  then have "block_add (location (curr_piece s)) (hd (get_shape (curr_piece s)))
      \<in> set (piece_cells (curr_piece s))"
    by (simp add: piece_cells_def)
  with assms have "check_boundary s
      (block_add (location (curr_piece s)) (hd (get_shape (curr_piece s)))) 0 0"
    by (simp add: state_ok_def list_all_iff)
  then show ?thesis by (simp add: check_boundary_def block_add_def Let_def)
qed

lemma drop_loop_terminates:
  assumes "state_ok s"
  shows "\<exists>d. drop_loop s = Some d"
  using assms
proof (induction "nat (board_height s - fst (location (curr_piece s))
          - fst (hd (get_shape (curr_piece s))))" arbitrary: s rule: less_induct)
  case less
  show ?case
  proof (cases "fst (move_piece 1 0 s)")
    case False
    then have "drop_loop s = Some (snd (move_piece 1 0 s))"
      by (subst drop_loop.simps) (simp add: Let_def)
    then show ?thesis ..
  next
    case True
    have ok: "state_ok (fall s)" using less.prems by (rule fall_state_ok)
    note loc = move_piece_down_location [OF less.prems True]
    have shape: "get_shape (curr_piece (fall s)) = get_shape (curr_piece s)"
      by (simp add: loc(1))
    have "fst (location (curr_piece (fall s))) + fst (hd (get_shape (curr_piece (fall s))))
        < board_height (fall s)"
      using ok by (rule head_cell_below_floor)
    then have "nat (board_height (fall s) - fst (location (curr_piece (fall s)))
          - fst (hd (get_shape (curr_piece (fall s)))))
        < nat (board_height s - fst (location (curr_piece s))
          - fst (hd (get_shape (curr_piece s))))"
      by (simp add: loc shape)
    from less.hyps [OF this ok] obtain d where "drop_loop (fall s) = Some d" ..
    then have "drop_loop s = Some d"
      using True by (subst drop_loop.simps) (simp add: Let_def fall_def)
    then show ?thesis ..
  qed
qed

lemma update_piece_tick_cnt:
  "update_piece c (s\<lparr>tick_cnt := n\<rparr>) = (update_piece c s)\<lparr>tick_cnt := n\<rparr>"
  by (simp add: update_piece_eq)

lemma blocks_free_tick_cnt:
  "blocks_free (s\<lparr>tick_cnt := n\<rparr>) loc y x sh = blocks_free s loc y x sh"
  by (simp add: blocks_free_iff check_boundary_def board_cell_def board_height_def)

lemma move_piece_tick_cnt:
  "move_piece y x (s\<lparr>tick_cnt := n\<rparr>) =
     (fst (move_piece y x s), (snd (move_piece y x s))\<lparr>tick_cnt := n\<rparr>)"
  by (simp add: move_piece_def can_move_def Let_def update_piece_eq blocks_free_iff
      check_boundary_def board_cell_def board_height_def split_beta)

lemma tick_after_drop:
  assumes "state_ok u" and "\<not> fst (move_piece 1 0 u)"
  shows "tick r (u\<lparr>tick_cnt := move_ticks - 1\<rparr>) = new_piece r (try_remove_line (u\<lparr>tick_cnt := 0\<rparr>))"
  using assms(2) move_piece_failure [OF assms]
  by (simp add: tick_def Let_def move_piece_tick_cnt)

lemma drop_loop_state_ok:
  assumes "state_ok s" and "drop_loop s = Some d"
  shows "state_ok d"
proof -
  from drop_loop_unroll [OF assms(2)] obtain n where "d = fall ((fall ^^ n) s)" by blast
  then show ?thesis using assms(1) by (simp add: fall_state_ok funpow_fall_state_ok)
qed

lemma key_pressed_state_ok:
  assumes "state_ok s" and "key_pressed c s = Some s'"
  shows "state_ok s'"
proof -
  have "state_ok d" if "hard_drop s = Some d" for d
    using that drop_loop_state_ok [OF assms(1)]
    by (auto simp: hard_drop_def split: option.splits)
  then show ?thesis
    using assms by (auto simp: key_pressed_def move_piece_state_ok rotate_piece_state_ok
        split: if_splits)
qed

lemma loop_body_state_ok:
  assumes "state_ok s" and "loop_body r k s = Some (Inr s')"
  shows "state_ok s'"
proof (cases "tick r s")
  case (Inl a)
  then show ?thesis using assms(2) by (cases a) (simp add: loop_body_def)
next
  case (Inr s1)
  then have ok1: "state_ok s1" using assms(1) by (simp add: tick_state_ok)
  show ?thesis
  proof (cases k)
    case None
    then show ?thesis using assms(2) Inr ok1 by (simp add: loop_body_def)
  next
    case (Some c)
    then have "key_pressed c s1 = Some s'"
      using assms(2) Inr by (auto simp: loop_body_def split: option.splits if_splits)
    with ok1 show ?thesis by (rule key_pressed_state_ok)
  qed
qed

section \<open>Moving and dropping in tetris.cc\<close>

text \<open>The code is the same as above, and so are the proofs.\<close>

lemma update_piece_fields_cc [simp]:
  "height_cc (update_piece_cc c s) = height_cc s"
  "width_cc (update_piece_cc c s) = width_cc s"
  "curr_piece_cc (update_piece_cc c s) = curr_piece_cc s"
  "tick_cnt_cc (update_piece_cc c s) = tick_cnt_cc s"
  "score_cc (update_piece_cc c s) = score_cc s"
  by (simp_all add: update_piece_cc_eq)

lemma board_ok_rect_cc: "board_ok_cc s \<longleftrightarrow> rect (nat (height_cc s)) (nat (width_cc s)) (board_cc s)"
  by (simp add: board_ok_cc_def rect_def)

lemma check_boundary_inside_cc:
  "check_boundary_cc s c y x \<longleftrightarrow> inside (nat (height_cc s)) (nat (width_cc s)) (fst c + y, snd c + x)"
  by (auto simp: check_boundary_cc_def inside_def Let_def)

lemma check_boundary_inside0_cc:
  "check_boundary_cc s c 0 0 \<longleftrightarrow> inside (nat (height_cc s)) (nat (width_cc s)) c"
  by (simp add: check_boundary_inside_cc)

lemma board_cell0_cc: "board_cell_cc s c 0 0 = cell_at (board_cc s) c"
  by (simp add: board_cell_cc_def)

lemma state_ok_cells_cc:
  assumes "state_ok_cc s"
  shows "rect (nat (height_cc s)) (nat (width_cc s)) (board_cc s)"
    and "\<forall>c\<in>set (piece_cells_cc (curr_piece_cc s)). inside (nat (height_cc s)) (nat (width_cc s)) c"
    and "\<forall>c\<in>set (piece_cells_cc (curr_piece_cc s)). cell_at (board_cc s) c = color_cc (curr_piece_cc s)"
  using assms
  by (simp_all add: state_ok_cc_def board_ok_rect_cc list_all_iff check_boundary_inside0_cc board_cell0_cc)

lemma update_piece_cell_cc:
  assumes "rect (nat (height_cc s)) (nat (width_cc s)) (board_cc s)"
    and "\<forall>c\<in>set (piece_cells_cc (curr_piece_cc s)). inside (nat (height_cc s)) (nat (width_cc s)) c"
  shows "rect (nat (height_cc s)) (nat (width_cc s)) (board_cc (update_piece_cc v s))"
    and "inside (nat (height_cc s)) (nat (width_cc s)) q \<Longrightarrow>
         cell_at (board_cc (update_piece_cc v s)) q =
           (if q \<in> set (piece_cells_cc (curr_piece_cc s)) then v else cell_at (board_cc s) q)"
  using fold_set_cell_rect [OF assms, of v] fold_set_cell_at [OF assms, of q v]
  by (simp_all add: update_piece_cc_eq)

lemma update_piece_restore_cc:
  assumes "state_ok_cc s"
  shows "update_piece_cc (color_cc (curr_piece_cc s)) (update_piece_cc 0 s) = s"
proof -
  let ?h = "nat (height_cc s)" and ?w = "nat (width_cc s)"
  let ?s1 = "update_piece_cc 0 s"
  note ok = state_ok_cells_cc [OF assms]
  have r1: "rect ?h ?w (board_cc ?s1)" by (rule update_piece_cell_cc(1) [OF ok(1,2)])
  have c1: "\<forall>c\<in>set (piece_cells_cc (curr_piece_cc ?s1)). inside (nat (height_cc ?s1)) (nat (width_cc ?s1)) c"
    using ok(2) by simp
  have r1': "rect (nat (height_cc ?s1)) (nat (width_cc ?s1)) (board_cc ?s1)" using r1 by simp
  have "board_cc (update_piece_cc (color_cc (curr_piece_cc s)) ?s1) = board_cc s"
  proof (rule board_ext [where h = ?h and w = ?w])
    show "rect ?h ?w (board_cc (update_piece_cc (color_cc (curr_piece_cc s)) ?s1))"
      using update_piece_cell_cc(1) [OF r1' c1] by simp
    show "rect ?h ?w (board_cc s)" by (rule ok(1))
    fix q assume q: "inside ?h ?w q"
    then have q': "inside (nat (height_cc ?s1)) (nat (width_cc ?s1)) q" by simp
    show "cell_at (board_cc (update_piece_cc (color_cc (curr_piece_cc s)) ?s1)) q = cell_at (board_cc s) q"
      using update_piece_cell_cc(2) [OF r1' c1 q'] update_piece_cell_cc(2) [OF ok(1,2) q] ok(3)
      by simp
  qed
  then show ?thesis by (simp add: update_piece_cc_eq [of "color_cc (curr_piece_cc s)"])
qed

lemma blocks_free_iff_cc:
  "blocks_free_cc s loc y x sh \<longleftrightarrow>
     (\<forall>blk\<in>set sh. check_boundary_cc s (block_add loc blk) y x \<and>
                     board_cell_cc s (block_add loc blk) y x = 0)"
  by (induction sh) (auto simp: Let_def)

lemma can_move_unchanged_cc:
  "state_ok_cc s \<Longrightarrow> snd (can_move_cc y x s) = s"
  by (simp add: can_move_cc_def Let_def update_piece_restore_cc)

lemma move_piece_failure_cc:
  "state_ok_cc s \<Longrightarrow> \<not> fst (move_piece_cc y x s) \<Longrightarrow> snd (move_piece_cc y x s) = s"
  using can_move_unchanged_cc [of s y x]
  by (auto simp: move_piece_cc_def Let_def split: prod.splits if_splits)

lemma check_boundary_update_piece_cc [simp]:
  "check_boundary_cc (update_piece_cc c s) = check_boundary_cc s"
  by (intro ext) (simp add: check_boundary_cc_def)

lemma blocks_free_cleared_cc:
  assumes "state_ok_cc s"
  shows "blocks_free_cc (update_piece_cc 0 s) loc y x sh \<longleftrightarrow>
     (\<forall>blk\<in>set sh.
        check_boundary_cc s (block_add loc blk) y x \<and>
        (board_cell_cc s (block_add loc blk) y x = 0 \<or>
         (fst (block_add loc blk) + y, snd (block_add loc blk) + x)
           \<in> set (piece_cells_cc (curr_piece_cc s))))"
proof -
  note ok = state_ok_cells_cc [OF assms]
  have "board_cell_cc (update_piece_cc 0 s) c y x = 0 \<longleftrightarrow>
        board_cell_cc s c y x = 0 \<or> (fst c + y, snd c + x) \<in> set (piece_cells_cc (curr_piece_cc s))"
    if "check_boundary_cc s c y x" for c
    using update_piece_cell_cc(2) [OF ok(1,2), of "(fst c + y, snd c + x)" 0] that
    by (auto simp: check_boundary_inside_cc board_cell_cc_def)
  then show ?thesis
    unfolding blocks_free_iff_cc check_boundary_update_piece_cc by blast
qed

lemma restamp_ok_cc:
  assumes "state_ok_cc s" and "shape_cc p' \<noteq> []"
    and "\<forall>c\<in>set (piece_cells_cc p'). check_boundary_cc s c 0 0"
  shows "state_ok_cc (update_piece_cc (color_cc p') ((update_piece_cc 0 s)\<lparr>curr_piece_cc := p'\<rparr>))"
proof -
  let ?h = "nat (height_cc s)" and ?w = "nat (width_cc s)"
  let ?s3 = "(update_piece_cc 0 s)\<lparr>curr_piece_cc := p'\<rparr>"
  note ok = state_ok_cells_cc [OF assms(1)]
  have dims: "height_cc ?s3 = height_cc s" "width_cc ?s3 = width_cc s"
    by (simp_all add:)
  have r3: "rect (nat (height_cc ?s3)) (nat (width_cc ?s3)) (board_cc ?s3)"
    using update_piece_cell_cc(1) [OF ok(1,2), of 0] by (simp add: dims)
  have c3: "\<forall>c\<in>set (piece_cells_cc (curr_piece_cc ?s3)). inside (nat (height_cc ?s3)) (nat (width_cc ?s3)) c"
    using assms(3) by (simp add: dims check_boundary_inside0_cc)
  have "board_ok_cc (update_piece_cc (color_cc p') ?s3)"
    using update_piece_cell_cc(1) [OF r3 c3, of "color_cc p'"] by (simp add: board_ok_rect_cc)
  moreover have "\<forall>c\<in>set (piece_cells_cc p').
      check_boundary_cc (update_piece_cc (color_cc p') ?s3) c 0 0 \<and>
      board_cell_cc (update_piece_cc (color_cc p') ?s3) c 0 0 = color_cc p'"
  proof
    fix c assume c: "c \<in> set (piece_cells_cc p')"
    then have ins: "inside (nat (height_cc ?s3)) (nat (width_cc ?s3)) c" using c3 by simp
    have "check_boundary_cc (update_piece_cc (color_cc p') ?s3) c 0 0"
      using ins by (simp add: check_boundary_inside0_cc)
    moreover have "board_cell_cc (update_piece_cc (color_cc p') ?s3) c 0 0 = color_cc p'"
      using update_piece_cell_cc(2) [OF r3 c3 ins, of "color_cc p'"] c by (simp add: board_cell0_cc)
    ultimately show "check_boundary_cc (update_piece_cc (color_cc p') ?s3) c 0 0 \<and>
      board_cell_cc (update_piece_cc (color_cc p') ?s3) c 0 0 = color_cc p'" ..
  qed
  ultimately show ?thesis
    using assms(2) by (simp add: state_ok_cc_def list_all_iff)
qed

lemma piece_cells_moved_cc:
  "piece_cells_cc (p\<lparr>location_cc := (fst (location_cc p) + y, snd (location_cc p) + x)\<rparr>) =
     map (\<lambda>blk. (fst (block_add (location_cc p) blk) + y, snd (block_add (location_cc p) blk) + x))
       (shape_cc p)"
  by (simp add: piece_cells_cc_def block_add_def)

lemma move_piece_fst_cc:
  assumes "state_ok_cc s"
  shows "fst (move_piece_cc y x s) \<longleftrightarrow>
     (\<forall>blk\<in>set (shape_cc (curr_piece_cc s)).
        check_boundary_cc s (block_add (location_cc (curr_piece_cc s)) blk) y x \<and>
        (board_cell_cc s (block_add (location_cc (curr_piece_cc s)) blk) y x = 0 \<or>
         (fst (block_add (location_cc (curr_piece_cc s)) blk) + y,
          snd (block_add (location_cc (curr_piece_cc s)) blk) + x) \<in> set (piece_cells_cc (curr_piece_cc s))))"
  using blocks_free_cleared_cc [OF assms, of "location_cc (curr_piece_cc s)" y x "shape_cc (curr_piece_cc s)"]
  by (simp add: move_piece_cc_def can_move_cc_def Let_def split: prod.splits)

lemma move_piece_success_cc:
  assumes "state_ok_cc s" and "fst (move_piece_cc y x s)"
  shows "snd (move_piece_cc y x s) =
     update_piece_cc (color_cc (curr_piece_cc s))
       ((update_piece_cc 0 s)\<lparr>curr_piece_cc := (curr_piece_cc s)
          \<lparr>location_cc := (fst (location_cc (curr_piece_cc s)) + y, snd (location_cc (curr_piece_cc s)) + x)\<rparr>\<rparr>)"
  using assms(2) update_piece_restore_cc [OF assms(1)]
  by (simp add: move_piece_cc_def can_move_cc_def Let_def split: prod.splits if_splits)

lemma move_piece_state_ok_cc:
  assumes "state_ok_cc s"
  shows "state_ok_cc (snd (move_piece_cc y x s))"
proof (cases "fst (move_piece_cc y x s)")
  case False
  then show ?thesis using assms by (simp add: move_piece_failure_cc)
next
  case True
  let ?p = "curr_piece_cc s"
  let ?p' = "?p\<lparr>location_cc := (fst (location_cc ?p) + y, snd (location_cc ?p) + x)\<rparr>"
  have pk: "shape_cc ?p' \<noteq> []" using assms by (simp add: state_ok_cc_def)
  have "\<forall>c\<in>set (piece_cells_cc ?p'). check_boundary_cc s c 0 0"
    using True move_piece_fst_cc [OF assms, of y x]
    by (auto simp: piece_cells_moved_cc check_boundary_cc_def Let_def)
  from restamp_ok_cc [OF assms pk this] show ?thesis
    by (simp add: move_piece_success_cc [OF assms True])
qed

lemma fall_state_ok_cc: "state_ok_cc s \<Longrightarrow> state_ok_cc (fall_cc s)"
  by (simp add: fall_cc_def move_piece_state_ok_cc)

lemma funpow_fall_state_ok_cc: "state_ok_cc s \<Longrightarrow> state_ok_cc ((fall_cc ^^ n) s)"
  by (induction n) (simp_all add: fall_state_ok_cc)

lemma drop_loop_unroll_cc:
  assumes "drop_loop_cc s = Some d"
  shows "\<exists>n. (\<forall>k<n. fst (move_piece_cc 1 0 ((fall_cc ^^ k) s))) \<and>
             \<not> fst (move_piece_cc 1 0 ((fall_cc ^^ n) s)) \<and> d = fall_cc ((fall_cc ^^ n) s)"
proof (rule drop_loop_cc.raw_induct [where P = "\<lambda>s d. \<exists>n. (\<forall>k<n. fst (move_piece_cc 1 0 ((fall_cc ^^ k) s))) \<and>
             \<not> fst (move_piece_cc 1 0 ((fall_cc ^^ n) s)) \<and> d = fall_cc ((fall_cc ^^ n) s)", OF _ assms])
  fix f :: "tetris_cc \<Rightarrow> tetris_cc option" and t t'
  assume IH: "\<And>s d. f s = Some d \<Longrightarrow> \<exists>n. (\<forall>k<n. fst (move_piece_cc 1 0 ((fall_cc ^^ k) s))) \<and>
             \<not> fst (move_piece_cc 1 0 ((fall_cc ^^ n) s)) \<and> d = fall_cc ((fall_cc ^^ n) s)"
    and step: "(let r = move_piece_cc 1 0 t in if fst r then f (snd r) else Some (snd r)) = Some t'"
  show "\<exists>n. (\<forall>k<n. fst (move_piece_cc 1 0 ((fall_cc ^^ k) t))) \<and>
             \<not> fst (move_piece_cc 1 0 ((fall_cc ^^ n) t)) \<and> t' = fall_cc ((fall_cc ^^ n) t)"
  proof (cases "fst (move_piece_cc 1 0 t)")
    case False
    then have "t' = fall_cc t" using step by (simp add: Let_def fall_cc_def)
    then have "(\<forall>k<0. fst (move_piece_cc 1 0 ((fall_cc ^^ k) t))) \<and>
             \<not> fst (move_piece_cc 1 0 ((fall_cc ^^ 0) t)) \<and> t' = fall_cc ((fall_cc ^^ 0) t)"
      using False by simp
    then show ?thesis ..
  next
    case True
    then have "f (fall_cc t) = Some t'" using step by (simp add: Let_def fall_cc_def)
    from IH [OF this] obtain n where n: "\<forall>k<n. fst (move_piece_cc 1 0 ((fall_cc ^^ k) (fall_cc t)))"
      "\<not> fst (move_piece_cc 1 0 ((fall_cc ^^ n) (fall_cc t)))" "t' = fall_cc ((fall_cc ^^ n) (fall_cc t))"
      by blast
    have "\<forall>k<Suc n. fst (move_piece_cc 1 0 ((fall_cc ^^ k) t))"
    proof (intro allI impI)
      fix k assume "k < Suc n"
      show "fst (move_piece_cc 1 0 ((fall_cc ^^ k) t))"
      proof (cases k)
        case 0
        then show ?thesis using True by simp
      next
        case (Suc j)
        then have "j < n" using \<open>k < Suc n\<close> by simp
        then show ?thesis using n(1) Suc by (simp add: funpow_swap1)
      qed
    qed
    moreover have "\<not> fst (move_piece_cc 1 0 ((fall_cc ^^ Suc n) t))"
      using n(2) by (simp add: funpow_swap1)
    moreover have "t' = fall_cc ((fall_cc ^^ Suc n) t)"
      using n(3) by (simp add: funpow_swap1)
    ultimately show ?thesis by blast
  qed
qed

lemma move_piece_down_location_cc:
  assumes "state_ok_cc s" and "fst (move_piece_cc 1 0 s)"
  shows "curr_piece_cc (fall_cc s) =
     (curr_piece_cc s)\<lparr>location_cc := (fst (location_cc (curr_piece_cc s)) + 1, snd (location_cc (curr_piece_cc s)))\<rparr>"
    and "height_cc (fall_cc s) = height_cc s"
  by (simp_all add: fall_cc_def move_piece_success_cc [OF assms])

lemma head_cell_below_floor_cc:
  assumes "state_ok_cc s"
  shows "fst (location_cc (curr_piece_cc s)) + fst (hd (shape_cc (curr_piece_cc s))) < height_cc s"
proof -
  have ne: "shape_cc (curr_piece_cc s) \<noteq> []"
    using assms by (simp add: state_ok_cc_def)
  then have "block_add (location_cc (curr_piece_cc s)) (hd (shape_cc (curr_piece_cc s)))
      \<in> set (piece_cells_cc (curr_piece_cc s))"
    by (simp add: piece_cells_cc_def)
  with assms have "check_boundary_cc s
      (block_add (location_cc (curr_piece_cc s)) (hd (shape_cc (curr_piece_cc s)))) 0 0"
    by (simp add: state_ok_cc_def list_all_iff)
  then show ?thesis by (simp add: check_boundary_cc_def block_add_def Let_def)
qed

lemma drop_loop_terminates_cc:
  assumes "state_ok_cc s"
  shows "\<exists>d. drop_loop_cc s = Some d"
  using assms
proof (induction "nat (height_cc s - fst (location_cc (curr_piece_cc s))
          - fst (hd (shape_cc (curr_piece_cc s))))" arbitrary: s rule: less_induct)
  case less
  show ?case
  proof (cases "fst (move_piece_cc 1 0 s)")
    case False
    then have "drop_loop_cc s = Some (snd (move_piece_cc 1 0 s))"
      by (subst drop_loop_cc.simps) (simp add: Let_def)
    then show ?thesis ..
  next
    case True
    have ok: "state_ok_cc (fall_cc s)" using less.prems by (rule fall_state_ok_cc)
    note loc = move_piece_down_location_cc [OF less.prems True]
    have shape: "shape_cc (curr_piece_cc (fall_cc s)) = shape_cc (curr_piece_cc s)"
      by (simp add: loc(1))
    have "fst (location_cc (curr_piece_cc (fall_cc s))) + fst (hd (shape_cc (curr_piece_cc (fall_cc s))))
        < height_cc (fall_cc s)"
      using ok by (rule head_cell_below_floor_cc)
    then have "nat (height_cc (fall_cc s) - fst (location_cc (curr_piece_cc (fall_cc s)))
          - fst (hd (shape_cc (curr_piece_cc (fall_cc s)))))
        < nat (height_cc s - fst (location_cc (curr_piece_cc s))
          - fst (hd (shape_cc (curr_piece_cc s))))"
      by (simp add: loc shape)
    from less.hyps [OF this ok] obtain d where "drop_loop_cc (fall_cc s) = Some d" ..
    then have "drop_loop_cc s = Some d"
      using True by (subst drop_loop_cc.simps) (simp add: Let_def fall_cc_def)
    then show ?thesis ..
  qed
qed

lemma move_piece_tick_cnt_cc:
  "move_piece_cc y x (s\<lparr>tick_cnt_cc := n\<rparr>) =
     (fst (move_piece_cc y x s), (snd (move_piece_cc y x s))\<lparr>tick_cnt_cc := n\<rparr>)"
  by (simp add: move_piece_cc_def can_move_cc_def Let_def update_piece_cc_eq blocks_free_iff_cc
      check_boundary_cc_def board_cell_cc_def split_beta)

lemma can_rotate_unchanged_cc:
  "state_ok_cc s \<Longrightarrow> snd (can_rotate_cc cnt s) = s"
  by (simp add: can_rotate_cc_def Let_def update_piece_restore_cc)

lemma rotate_piece_failure_cc:
  "state_ok_cc s \<Longrightarrow> \<not> fst (rotate_piece_cc cnt s) \<Longrightarrow> snd (rotate_piece_cc cnt s) = s"
  using can_rotate_unchanged_cc [of s cnt]
  by (auto simp: rotate_piece_cc_def Let_def split: prod.splits if_splits)

lemma rotate_piece_fst_cc:
  assumes "state_ok_cc s"
  shows "fst (rotate_piece_cc cnt s) \<longleftrightarrow>
     (\<forall>c\<in>set (rotated_cells_cc cnt (curr_piece_cc s)).
        check_boundary_cc s c 0 0 \<and>
        (board_cell_cc s c 0 0 = 0 \<or> c \<in> set (piece_cells_cc (curr_piece_cc s))))"
  using blocks_free_cleared_cc [OF assms, of "location_cc (curr_piece_cc s)" 0 0
      "map (block_rotate cnt) (shape_cc (curr_piece_cc s))"]
  by (simp add: rotate_piece_cc_def can_rotate_cc_def Let_def rotated_cells_cc_def
      split: prod.splits)

lemma rotate_piece_success_cc:
  assumes "state_ok_cc s" and "fst (rotate_piece_cc cnt s)"
  shows "snd (rotate_piece_cc cnt s) =
     update_piece_cc (color_cc (curr_piece_cc s))
       ((update_piece_cc 0 s)\<lparr>curr_piece_cc := piece_rotate_cc cnt (curr_piece_cc s)\<rparr>)"
  using assms(2) update_piece_restore_cc [OF assms(1)]
  by (simp add: rotate_piece_cc_def can_rotate_cc_def Let_def piece_rotate_cc_def
      split: prod.splits if_splits)

lemma piece_cells_rotated_cc:
  "piece_cells_cc (piece_rotate_cc cnt p) = rotated_cells_cc cnt p"
  by (simp add: piece_cells_cc_def rotated_cells_cc_def piece_rotate_cc_def)

lemma rotate_piece_state_ok_cc:
  assumes "state_ok_cc s"
  shows "state_ok_cc (snd (rotate_piece_cc cnt s))"
proof (cases "fst (rotate_piece_cc cnt s)")
  case False
  then show ?thesis using assms by (simp add: rotate_piece_failure_cc)
next
  case True
  have pk: "shape_cc (piece_rotate_cc cnt (curr_piece_cc s)) \<noteq> []"
    using assms by (simp add: state_ok_cc_def piece_rotate_cc_def)
  have "\<forall>c\<in>set (piece_cells_cc (piece_rotate_cc cnt (curr_piece_cc s))). check_boundary_cc s c 0 0"
    using True rotate_piece_fst_cc [OF assms, of cnt] by (simp add: piece_cells_rotated_cc)
  from restamp_ok_cc [OF assms pk this] show ?thesis
    by (simp add: rotate_piece_success_cc [OF assms True] piece_rotate_cc_def)
qed

section \<open>The key \<open>s\<close>\<close>

lemma tick_cc_after_drop:
  assumes "state_ok_cc u" and "\<not> fst (move_piece_cc 1 0 u)"
  shows "tick_cc r (u\<lparr>tick_cnt_cc := move_ticks - 1\<rparr>) =
     new_piece_cc r (try_remove_line_cc (u\<lparr>tick_cnt_cc := 0\<rparr>))"
  using assms(2) move_piece_failure_cc [OF assms]
  by (simp add: tick_cc_def Let_def move_piece_tick_cnt_cc)

lemma try_remove_line_cc_tick_cnt:
  "try_remove_line_cc (s\<lparr>tick_cnt_cc := n\<rparr>) = (try_remove_line_cc s)\<lparr>tick_cnt_cc := n\<rparr>"
  by (simp add: try_remove_line_cc_def lines_to_remove_cc_def clear_line_cc_def Let_def)

lemma hard_drop_eq:
  assumes "state_ok s"
  shows "\<exists>n. (\<forall>k<n. fst (move_piece 1 0 ((fall ^^ k) s))) \<and>
             \<not> fst (move_piece 1 0 ((fall ^^ n) s)) \<and>
             hard_drop s = Some (((fall ^^ n) s)\<lparr>tick_cnt := 0\<rparr>)"
proof -
  from drop_loop_terminates [OF assms] obtain d where d: "drop_loop s = Some d" ..
  from drop_loop_unroll [OF d] obtain n where n: "\<forall>k<n. fst (move_piece 1 0 ((fall ^^ k) s))"
    "\<not> fst (move_piece 1 0 ((fall ^^ n) s))" "d = fall ((fall ^^ n) s)"
    by blast
  have "fall ((fall ^^ n) s) = (fall ^^ n) s"
    unfolding fall_def [of "(fall ^^ n) s"]
    using funpow_fall_state_ok [OF assms] n(2) by (rule move_piece_failure)
  then have "hard_drop s = Some (((fall ^^ n) s)\<lparr>tick_cnt := 0\<rparr>)"
    using d n(3) by (simp add: hard_drop_def)
  with n(1,2) show ?thesis by blast
qed

lemma hard_drop_cc_eq:
  assumes "state_ok_cc s"
  shows "\<exists>n. (\<forall>k<n. fst (move_piece_cc 1 0 ((fall_cc ^^ k) s))) \<and>
             \<not> fst (move_piece_cc 1 0 ((fall_cc ^^ n) s)) \<and>
             hard_drop_cc r s =
               Some (new_piece_cc r (try_remove_line_cc (((fall_cc ^^ n) s)\<lparr>tick_cnt_cc := 0\<rparr>)))"
proof -
  from drop_loop_terminates_cc [OF assms] obtain d where d: "drop_loop_cc s = Some d" ..
  from drop_loop_unroll_cc [OF d] obtain n where n: "\<forall>k<n. fst (move_piece_cc 1 0 ((fall_cc ^^ k) s))"
    "\<not> fst (move_piece_cc 1 0 ((fall_cc ^^ n) s))" "d = fall_cc ((fall_cc ^^ n) s)"
    by blast
  have "fall_cc ((fall_cc ^^ n) s) = (fall_cc ^^ n) s"
    unfolding fall_cc_def [of "(fall_cc ^^ n) s"]
    using funpow_fall_state_ok_cc [OF assms] n(2) by (rule move_piece_failure_cc)
  then have "hard_drop_cc r s =
      Some (new_piece_cc r (try_remove_line_cc (((fall_cc ^^ n) s)\<lparr>tick_cnt_cc := 0\<rparr>)))"
    using d n(3) by (simp add: hard_drop_cc_def try_remove_line_cc_tick_cnt)
  with n(1,2) show ?thesis by blast
qed

section \<open>Removing lines\<close>

lemma fold_list_update_nth:
  "i < length r \<Longrightarrow>
   fold (\<lambda>x r. r[x := f x]) xs r ! i = (if i \<in> set xs then f i else r ! i)"
proof (induction xs arbitrary: r)
  case Nil
  then show ?case by simp
next
  case (Cons x xs)
  then have "i < length (r[x := f x])" by simp
  from Cons.IH [OF this] Cons.prems show ?case
    by (auto simp: nth_list_update)
qed

lemma fold_list_update_length: "length (fold (\<lambda>x r. r[x := f x]) xs r) = length r"
  by (induction xs arbitrary: r) simp_all

lemma clear_row_eq: "length r = w \<Longrightarrow> clear_row w r = replicate w 0"
  by (rule nth_equalityI)
    (simp_all add: clear_row_def fold_list_update_length fold_list_update_nth)

lemma copy_row_eq: "length src = w \<Longrightarrow> length dst = w \<Longrightarrow> copy_row w src dst = src"
  by (rule nth_equalityI)
    (simp_all add: copy_row_def fold_list_update_length fold_list_update_nth)

lemma find_from_post:
  assumes "- 1 \<le> f"
  shows "- 1 \<le> find_from R moved f \<and> find_from R moved f \<le> f \<and>
         (0 \<le> find_from R moved f \<longrightarrow>
            find_from R moved f \<notin> R \<and> \<not> moved ! nat (find_from R moved f)) \<and>
         (\<forall>i. find_from R moved f < i \<and> i \<le> f \<longrightarrow> i \<in> R \<or> moved ! nat i)"
  using assms
proof (induction R moved f rule: find_from.induct)
  case (1 R moved f)
  show ?case
  proof (cases "f \<ge> 0 \<and> (f \<in> R \<or> moved ! nat f)")
    case True
    then have eq: "find_from R moved f = find_from R moved (f - 1)"
      by (simp add: find_from.simps [of R moved f])
    have "- 1 \<le> f - 1" using True by simp
    from 1(1) [OF True this]
    have IH: "- 1 \<le> find_from R moved (f - 1)" "find_from R moved (f - 1) \<le> f - 1"
      "0 \<le> find_from R moved (f - 1) \<longrightarrow>
         find_from R moved (f - 1) \<notin> R \<and> \<not> moved ! nat (find_from R moved (f - 1))"
      "\<forall>i. find_from R moved (f - 1) < i \<and> i \<le> f - 1 \<longrightarrow> i \<in> R \<or> moved ! nat i"
      by blast+
    have "\<forall>i. find_from R moved (f - 1) < i \<and> i \<le> f \<longrightarrow> i \<in> R \<or> moved ! nat i"
    proof (intro allI impI)
      fix i assume i: "find_from R moved (f - 1) < i \<and> i \<le> f"
      show "i \<in> R \<or> moved ! nat i"
      proof (cases "i = f")
        case True
        then show ?thesis using \<open>f \<ge> 0 \<and> (f \<in> R \<or> moved ! nat f)\<close> by simp
      next
        case False
        then have "i \<le> f - 1" using i by simp
        then show ?thesis using IH(4) i by blast
      qed
    qed
    then show ?thesis unfolding eq using IH(1,2,3) by simp
  next
    case False
    then have eq: "find_from R moved f = f"
      by (auto simp: find_from.simps [of R moved f])
    show ?thesis unfolding eq using False 1(2) by auto
  qed
qed

lemma find_from_unique:
  assumes "- 1 \<le> f" and "- 1 \<le> c" and "c \<le> f"
    and "0 \<le> c \<longrightarrow> c \<notin> R \<and> \<not> moved ! nat c"
    and "\<forall>i. c < i \<and> i \<le> f \<longrightarrow> i \<in> R \<or> moved ! nat i"
  shows "find_from R moved f = c"
proof -
  let ?r = "find_from R moved f"
  note post = find_from_post [OF assms(1), of R moved]
  have "\<not> ?r < c"
  proof
    assume "?r < c"
    then have "0 \<le> c" "?r < c \<and> c \<le> f" using post assms(3) by auto
    then show False using post assms(4) by blast
  qed
  moreover have "\<not> c < ?r"
  proof
    assume "c < ?r"
    then have "0 \<le> ?r" "c < ?r \<and> ?r \<le> f" using post assms(2) by auto
    then show False using post assms(5) by blast
  qed
  ultimately show ?thesis by simp
qed

lemma kept_below_set: "set (kept_below R m) = {i. i < m \<and> int i \<notin> R}"
  by (auto simp: kept_below_def)

lemma kept_below_decreasing: "sorted_wrt (>) (kept_below R m)"
proof -
  have "sorted_wrt (<) (filter (\<lambda>i. int i \<notin> R) [0..<m])"
    by (rule sorted_wrt_filter) simp
  then show ?thesis by (simp add: kept_below_def sorted_wrt_rev)
qed

lemma kept_below_distinct: "distinct (kept_below R m)"
  by (simp add: kept_below_def)

lemma kept_below_bound:
  "j < length (kept_below R m) \<Longrightarrow> kept_below R m ! j + j < m"
proof (induction j)
  case 0
  then have "kept_below R m ! 0 \<in> set (kept_below R m)" by simp
  then show ?case by (simp add: kept_below_set)
next
  case (Suc j)
  then have "kept_below R m ! Suc j < kept_below R m ! j"
    using sorted_wrt_nth_less [OF kept_below_decreasing [of R m], of j "Suc j"] by simp
  moreover have "kept_below R m ! j + j < m" using Suc by simp
  ultimately show ?case by simp
qed

lemma kept_below_above:
  assumes "j < length (kept_below R m)" and "i \<in> set (kept_below R m)"
    and "kept_below R m ! j < i"
  shows "i \<in> set (take j (kept_below R m))"
proof -
  from assms(2) obtain a where a: "a < length (kept_below R m)" "kept_below R m ! a = i"
    by (auto simp: in_set_conv_nth)
  have "a < j"
  proof (rule ccontr)
    assume "\<not> a < j"
    then have "j = a \<or> j < a" by auto
    then have "kept_below R m ! a \<le> kept_below R m ! j"
      using a(1) sorted_wrt_nth_less [OF kept_below_decreasing [of R m], of j a]
      by auto
    then show False using a(2) assms(3) by simp
  qed
  then show ?thesis using a by (auto simp: in_set_conv_nth)
qed

lemma kept_below_fresh:
  assumes "j < length (kept_below R m)"
  shows "kept_below R m ! j \<notin> set (take j (kept_below R m))"
proof
  assume "kept_below R m ! j \<in> set (take j (kept_below R m))"
  then obtain a where "a < j" "kept_below R m ! a = kept_below R m ! j"
    by (auto simp: in_set_conv_nth)
  then show False
    using kept_below_distinct [of R m] assms by (auto simp: distinct_conv_nth)
qed

lemma find_from_kept:
  assumes mv: "\<forall>i<h. moved ! i \<longleftrightarrow> i \<in> set (take j (kept_below R m))"
    and mh: "m \<le> h" and jm: "j \<le> m"
  shows "find_from R moved (int m - int j - 1) =
     (if j < length (kept_below R m) then int (kept_below R m ! j) else - 1)"
proof (cases "j < length (kept_below R m)")
  case True
  let ?K = "kept_below R m"
  have kj: "?K ! j \<in> set ?K" using True by simp
  then have kjm: "?K ! j < m" and kjR: "int (?K ! j) \<notin> R" by (simp_all add: kept_below_set)
  have "find_from R moved (int m - int j - 1) = int (?K ! j)"
  proof (rule find_from_unique)
    show "- 1 \<le> int m - int j - 1" using jm by simp
    show "- 1 \<le> int (?K ! j)" by simp
    show "int (?K ! j) \<le> int m - int j - 1" using kept_below_bound [OF True] by simp
    show "0 \<le> int (?K ! j) \<longrightarrow> int (?K ! j) \<notin> R \<and> \<not> moved ! nat (int (?K ! j))"
      using kjR kjm mh mv kept_below_fresh [OF True] by simp
    show "\<forall>i. int (?K ! j) < i \<and> i \<le> int m - int j - 1 \<longrightarrow> i \<in> R \<or> moved ! nat i"
    proof (intro allI impI)
      fix i assume i: "int (?K ! j) < i \<and> i \<le> int m - int j - 1"
      show "i \<in> R \<or> moved ! nat i"
      proof (cases "i \<in> R")
        case False
        have im: "nat i < m" using i by arith
        then have "nat i \<in> set ?K" using False i by (simp add: kept_below_set)
        moreover have "?K ! j < nat i" using i by arith
        ultimately have "nat i \<in> set (take j ?K)" by (rule kept_below_above [OF True])
        then show ?thesis using mv im mh by simp
      qed simp
    qed
  qed
  then show ?thesis using True by simp
next
  case False
  let ?K = "kept_below R m"
  have all: "take j ?K = ?K" using False by simp
  have "find_from R moved (int m - int j - 1) = - 1"
  proof (rule find_from_unique)
    show "- 1 \<le> int m - int j - 1" using jm by simp
    show "- 1 \<le> (- 1 :: int)" by simp
    show "- 1 \<le> int m - int j - 1" using jm by simp
    show "0 \<le> (- 1 :: int) \<longrightarrow> - 1 \<notin> R \<and> \<not> moved ! nat (- 1)" by simp
    show "\<forall>i. - 1 < i \<and> i \<le> int m - int j - 1 \<longrightarrow> i \<in> R \<or> moved ! nat i"
    proof (intro allI impI)
      fix i :: int assume i: "- 1 < i \<and> i \<le> int m - int j - 1"
      show "i \<in> R \<or> moved ! nat i"
      proof (cases "i \<in> R")
        case False
        have im: "nat i < m" using i by arith
        then have "nat i \<in> set ?K" using False i by (simp add: kept_below_set)
        then show ?thesis using mv im mh all by simp
      qed simp
    qed
  qed
  then show ?thesis using False by simp
qed

lemma pulled_length:
  assumes "rect h w b0" and "m \<le> h"
  shows "length (pulled w R b0 m k) = w"
proof (cases "k < length (kept_below R m)")
  case True
  then have "kept_below R m ! k \<in> set (kept_below R m)" by simp
  then have "kept_below R m ! k < h" using assms(2) by (simp add: kept_below_set)
  then show ?thesis using True assms(1) by (simp add: pulled_def rect_row)
next
  case False
  then show ?thesis by (simp add: pulled_def)
qed

lemma compact_loop_rows:
  assumes rect: "rect h w b0" and mh: "m < h" and lo: "0 \<le> lo"
    and y: "y \<le> int m" "lo \<le> y + 1"
    and mv: "length moved = h"
      "\<forall>i<h. moved ! i \<longleftrightarrow> i \<in> set (take (nat (int m - y)) (kept_below R m))"
    and b: "length b = h"
      "\<forall>i<h. b ! i = (if y < int i \<and> i \<le> m then pulled w R b0 m (m - i) else b0 ! i)"
  shows "length (compact_loop w lo R y moved b) = h \<and>
         (\<forall>i<h. compact_loop w lo R y moved b ! i =
            (if lo \<le> int i \<and> i \<le> m then pulled w R b0 m (m - i) else b0 ! i))"
  using y mv b
proof (induction "nat (y - lo + 1)" arbitrary: y moved b)
  case 0
  then have ylo: "y = lo - 1" by simp
  have "compact_loop w lo R y moved b = b"
    unfolding ylo by (simp add: compact_loop.simps [of w lo R "lo - 1"])
  then show ?case using "0.prems" ylo by auto
next
  case (Suc n)
  let ?K = "kept_below R m"
  define j where "j = nat (int m - y)"
  have ylo: "lo \<le> y" using Suc.hyps(2) by simp
  then have y0: "0 \<le> y" using lo by simp
  have jm: "j \<le> m" and yj: "y = int m - int j" and ny: "nat y = m - j"
    using y0 Suc.prems(1) by (simp_all add: j_def)
  have yh: "m - j < h" using mh by simp
  have rows: "length (b ! i) = w" if "i < h" for i
    using that Suc.prems(6) rect pulled_length [OF rect less_imp_le [OF mh]]
    by (simp add: rect_row)
  have mvj: "\<forall>i<h. moved ! i \<longleftrightarrow> i \<in> set (take j ?K)"
    using Suc.prems(4) unfolding j_def .
  have fr: "find_from R moved (y - 1) =
      (if j < length ?K then int (?K ! j) else - 1)"
  proof -
    have "y - 1 = int m - int j - 1" using yj by simp
    then show ?thesis
      using find_from_kept [OF mvj less_imp_le [OF mh] jm] by simp
  qed
  have n: "n = nat (y - 1 - lo + 1)" using Suc.hyps(2) by simp
  show ?case
  proof (cases "j < length ?K")
    case True
    have kj: "?K ! j \<in> set ?K" using True by simp
    then have kjm: "?K ! j < m" by (simp add: kept_below_set)
    have kjy: "int (?K ! j) < y" using kept_below_bound [OF True] yj by simp
    have src: "b ! (?K ! j) = b0 ! (?K ! j)"
      using Suc.prems(6) kjm mh kjy by simp
    have step: "compact_loop w lo R y moved b =
        compact_loop w lo R (y - 1) (moved[?K ! j := True]) (b[m - j := b0 ! (?K ! j)])"
      using ylo fr True src rows [OF yh] rows [of "?K ! j"] kjm mh
      by (simp add: compact_loop.simps [of w lo R y] Let_def ny copy_row_eq)
    have tk: "take (nat (int m - (y - 1))) ?K = take j ?K @ [?K ! j]"
      using True by (simp add: yj take_Suc_conv_app_nth nat_add_distrib)
    have "length (compact_loop w lo R (y - 1) (moved[?K ! j := True]) (b[m - j := b0 ! (?K ! j)])) = h \<and>
         (\<forall>i<h. compact_loop w lo R (y - 1) (moved[?K ! j := True]) (b[m - j := b0 ! (?K ! j)]) ! i =
            (if lo \<le> int i \<and> i \<le> m then pulled w R b0 m (m - i) else b0 ! i))"
    proof (rule Suc.hyps(1) [OF n])
      show "y - 1 \<le> int m" using Suc.prems(1) by simp
      show "lo \<le> y - 1 + 1" using ylo by simp
      show "length (moved[?K ! j := True]) = h" using Suc.prems(3) by simp
      show "\<forall>i<h. (moved[?K ! j := True]) ! i \<longleftrightarrow> i \<in> set (take (nat (int m - (y - 1))) ?K)"
      proof (intro allI impI)
        fix i assume ih: "i < h"
        then have "(moved[?K ! j := True]) ! i \<longleftrightarrow> (i = ?K ! j \<or> moved ! i)"
          using Suc.prems(3) kjm mh by (auto simp: nth_list_update)
        then show "(moved[?K ! j := True]) ! i \<longleftrightarrow> i \<in> set (take (nat (int m - (y - 1))) ?K)"
          using mvj ih by (auto simp: tk)
      qed
      show "length (b[m - j := b0 ! (?K ! j)]) = h" using Suc.prems(5) by simp
      show "\<forall>i<h. (b[m - j := b0 ! (?K ! j)]) ! i =
          (if y - 1 < int i \<and> i \<le> m then pulled w R b0 m (m - i) else b0 ! i)"
      proof (intro allI impI)
        fix i assume ih: "i < h"
        show "(b[m - j := b0 ! (?K ! j)]) ! i =
          (if y - 1 < int i \<and> i \<le> m then pulled w R b0 m (m - i) else b0 ! i)"
        proof (cases "i = m - j")
          case e: True
          then have "m - i = j" using jm by simp
          then show ?thesis using e True Suc.prems(5) yh jm yj by (simp add: pulled_def)
        next
          case False
          then have "y - 1 < int i \<longleftrightarrow> y < int i" using yj jm by auto
          then show ?thesis using False Suc.prems(6) ih by simp
        qed
      qed
    qed
    then show ?thesis unfolding step .
  next
    case False
    have step: "compact_loop w lo R y moved b =
        compact_loop w lo R (y - 1) moved (b[m - j := replicate w 0])"
      using ylo fr False rows [OF yh]
      by (simp add: compact_loop.simps [of w lo R y] Let_def ny clear_row_eq)
    have "nat (int m - (y - 1)) = Suc j" using yj by simp
    then have tk: "take (nat (int m - (y - 1))) ?K = take j ?K"
      using False by simp
    have "length (compact_loop w lo R (y - 1) moved (b[m - j := replicate w 0])) = h \<and>
         (\<forall>i<h. compact_loop w lo R (y - 1) moved (b[m - j := replicate w 0]) ! i =
            (if lo \<le> int i \<and> i \<le> m then pulled w R b0 m (m - i) else b0 ! i))"
    proof (rule Suc.hyps(1) [OF n])
      show "y - 1 \<le> int m" using Suc.prems(1) by simp
      show "lo \<le> y - 1 + 1" using ylo by simp
      show "length moved = h" using Suc.prems(3) by simp
      show "\<forall>i<h. moved ! i \<longleftrightarrow> i \<in> set (take (nat (int m - (y - 1))) ?K)"
        using mvj by (simp add: tk)
      show "length (b[m - j := replicate w 0]) = h" using Suc.prems(5) by simp
      show "\<forall>i<h. (b[m - j := replicate w 0]) ! i =
          (if y - 1 < int i \<and> i \<le> m then pulled w R b0 m (m - i) else b0 ! i)"
      proof (intro allI impI)
        fix i assume ih: "i < h"
        show "(b[m - j := replicate w 0]) ! i =
          (if y - 1 < int i \<and> i \<le> m then pulled w R b0 m (m - i) else b0 ! i)"
        proof (cases "i = m - j")
          case e: True
          then have "m - i = j" using jm by simp
          then show ?thesis using e False Suc.prems(5) yh jm yj by (simp add: pulled_def)
        next
          case ne: False
          then have "y - 1 < int i \<longleftrightarrow> y < int i" using yj jm by auto
          then show ?thesis using ne Suc.prems(6) ih by simp
        qed
      qed
    qed
    then show ?thesis unfolding step .
  qed
qed

lemma kept_count:
  assumes "R \<subseteq> {0..<int h}"
  shows "length (filter (\<lambda>i. int i \<notin> R) [0..<h]) + card R = h"
proof -
  have "R = int ` set (filter (\<lambda>i. int i \<in> R) [0..<h])"
  proof
    show "R \<subseteq> int ` set (filter (\<lambda>i. int i \<in> R) [0..<h])"
    proof
      fix r assume r: "r \<in> R"
      then have "0 \<le> r" "r < int h" using assms by auto
      then have "nat r \<in> set (filter (\<lambda>i. int i \<in> R) [0..<h])" using r by simp
      moreover have "r = int (nat r)" using \<open>0 \<le> r\<close> by simp
      ultimately show "r \<in> int ` set (filter (\<lambda>i. int i \<in> R) [0..<h])" by (rule rev_image_eqI)
    qed
  next
    show "int ` set (filter (\<lambda>i. int i \<in> R) [0..<h]) \<subseteq> R" by auto
  qed
  then have "card R = card (int ` set (filter (\<lambda>i. int i \<in> R) [0..<h]))" by simp
  also have "\<dots> = card (set (filter (\<lambda>i. int i \<in> R) [0..<h]))"
    by (rule card_image) (simp add: inj_on_def)
  also have "\<dots> = length (filter (\<lambda>i. int i \<in> R) [0..<h])"
    by (rule distinct_card) simp
  finally have "card R = length (filter (\<lambda>i. int i \<in> R) [0..<h])" .
  moreover have "length (filter (\<lambda>i. int i \<in> R) [0..<h]) +
      length (filter (\<lambda>i. \<not> int i \<in> R) [0..<h]) = length [0..<h]"
    by (rule sum_length_filter_compl)
  ultimately show ?thesis by simp
qed

lemma kept_split:
  assumes fin: "finite R" and ne: "R \<noteq> {}" and sub: "R \<subseteq> {0..<int h}"
  shows "nat (Max R) < h"
    and "filter (\<lambda>i. int i \<notin> R) [0..<h] = rev (kept_below R (nat (Max R))) @ [Suc (nat (Max R))..<h]"
    and "length (kept_below R (nat (Max R))) + card R = Suc (nat (Max R))"
proof -
  let ?m = "nat (Max R)"
  have mR: "Max R \<in> R" using fin ne by (rule Max_in)
  then have m0: "0 \<le> Max R" and mh: "Max R < int h" using sub by auto
  then show mlt: "?m < h" by simp
  have im: "int ?m = Max R" using m0 by simp
  have top: "int i \<notin> R" if "?m < i" for i
  proof
    assume "int i \<in> R"
    then have "int i \<le> Max R" by (rule Max_ge [OF fin])
    then show False using that by simp
  qed
  have "[0..<h] = [0..<?m] @ [?m..<h]"
    using mlt upt_add_eq_append [of 0 ?m "h - ?m"] by simp
  moreover have "[?m..<h] = ?m # [Suc ?m..<h]" using mlt by (rule upt_conv_Cons)
  ultimately have split: "[0..<h] = [0..<?m] @ [?m] @ [Suc ?m..<h]" by simp
  have "filter (\<lambda>i. int i \<notin> R) [Suc ?m..<h] = [Suc ?m..<h]"
    using top by (simp add: filter_id_conv)
  then show "filter (\<lambda>i. int i \<notin> R) [0..<h] = rev (kept_below R ?m) @ [Suc ?m..<h]"
    using mR im by (simp add: split kept_below_def)
  have subm: "R \<subseteq> {0..<int (Suc ?m)}"
  proof
    fix r assume r: "r \<in> R"
    then have "r \<le> Max R" by (rule Max_ge [OF fin])
    moreover have "0 \<le> r" using r sub by auto
    ultimately show "r \<in> {0..<int (Suc ?m)}" using im by simp
  qed
  have "filter (\<lambda>i. int i \<notin> R) [0..<Suc ?m] = filter (\<lambda>i. int i \<notin> R) [0..<?m]"
    using mR im by simp
  then show "length (kept_below R ?m) + card R = Suc ?m"
    using kept_count [OF subm] by (simp add: kept_below_def)
qed

lemma remove_lines_rows:
  assumes rect: "rect h w b0" and fin: "finite R" and ne: "R \<noteq> {}"
    and sub: "R \<subseteq> {first..<int h}" and first: "0 \<le> first"
  shows "length (remove_lines h w first R b0) = h"
    and "i < h \<Longrightarrow> remove_lines h w first R b0 ! i =
      (if i = nat first then replicate w 0
       else if first < int i \<and> i \<le> nat (Max R)
         then pulled w R b0 (nat (Max R)) (nat (Max R) - i)
         else b0 ! i)"
proof -
  let ?m = "nat (Max R)"
  let ?b1 = "compact_loop w (first + 1) R (Max R) (replicate h False) b0"
  have sub0: "R \<subseteq> {0..<int h}" using sub first by auto
  have mh: "?m < h" by (rule kept_split(1) [OF fin ne sub0])
  have mR: "Max R \<in> R" using fin ne by (rule Max_in)
  then have fm: "first \<le> Max R" and m0: "0 \<le> Max R" using sub first by auto
  have im: "int ?m = Max R" using m0 by simp
  have fh: "nat first < h" using fm mh first by simp
  have loop: "length ?b1 = h \<and>
         (\<forall>i<h. ?b1 ! i =
            (if first + 1 \<le> int i \<and> i \<le> ?m then pulled w R b0 ?m (?m - i) else b0 ! i))"
  proof (rule compact_loop_rows [OF rect mh])
    show "0 \<le> first + 1" using first by simp
    show "Max R \<le> int ?m" using im by simp
    show "first + 1 \<le> Max R + 1" using fm by simp
    show "length (replicate h False) = h" by simp
    show "\<forall>i<h. replicate h False ! i \<longleftrightarrow> i \<in> set (take (nat (int ?m - Max R)) (kept_below R ?m))"
      using im by simp
    show "length b0 = h" using rect by (simp add: rect_def)
    show "\<forall>i<h. b0 ! i = (if Max R < int i \<and> i \<le> ?m then pulled w R b0 ?m (?m - i) else b0 ! i)"
    proof (intro allI impI)
      fix i
      have "\<not> (Max R < int i \<and> i \<le> ?m)" using m0 by linarith
      then show "b0 ! i = (if Max R < int i \<and> i \<le> ?m then pulled w R b0 ?m (?m - i) else b0 ! i)"
        by (simp only: if_False)
    qed
  qed
  have row: "length (?b1 ! nat first) = w"
    using loop fh rect pulled_length [OF rect less_imp_le [OF mh]] by (simp add: rect_row)
  have eq: "remove_lines h w first R b0 = ?b1[nat first := replicate w 0]"
    using row by (simp add: remove_lines_def Let_def clear_row_eq)
  show "length (remove_lines h w first R b0) = h" using loop by (simp add: eq)
  show "remove_lines h w first R b0 ! i =
      (if i = nat first then replicate w 0
       else if first < int i \<and> i \<le> ?m then pulled w R b0 ?m (?m - i)
         else b0 ! i)" if "i < h"
  proof (cases "i = nat first")
    case True
    then show ?thesis using loop fh by (simp add: eq)
  next
    case False
    have "first + 1 \<le> int i \<longleftrightarrow> first < int i" by auto
    then show ?thesis using False loop that by (simp add: eq)
  qed
qed

lemma compacted_rows:
  assumes rect: "rect h w b0" and fin: "finite R" and ne: "R \<noteq> {}"
    and sub: "R \<subseteq> {0..<int h}"
  shows "length (compacted w R b0) = h"
    and "i < h \<Longrightarrow> compacted w R b0 ! i =
      (if i < card R then replicate w 0
       else if i \<le> nat (Max R) then b0 ! (kept_below R (nat (Max R)) ! (nat (Max R) - i))
       else b0 ! i)"
proof -
  let ?m = "nat (Max R)"
  let ?K = "kept_below R ?m"
  let ?kept = "filter (\<lambda>i. int i \<notin> R) [0..<h]"
  note ks = kept_split [OF fin ne sub]
  have len: "length b0 = h" using rect by (simp add: rect_def)
  have cnt: "length ?kept + card R = h" by (rule kept_count [OF sub])
  then show "length (compacted w R b0) = h" by (simp add: compacted_def len)
  show "compacted w R b0 ! i =
      (if i < card R then replicate w 0
       else if i \<le> ?m then b0 ! (?K ! (?m - i))
       else b0 ! i)" if ih: "i < h"
  proof (cases "i < card R")
    case True
    then show ?thesis by (simp add: compacted_def nth_append)
  next
    case False
    then have k: "i - card R < length ?kept" using cnt ih by simp
    have c: "compacted w R b0 ! i = b0 ! (?kept ! (i - card R))"
      using False k by (simp add: compacted_def nth_append len)
    show ?thesis
    proof (cases "i \<le> ?m")
      case True
      then have lt: "i - card R < length ?K" using ks(3) False by simp
      have "?kept ! (i - card R) = rev ?K ! (i - card R)"
        using lt by (simp add: ks(2) nth_append)
      also have "\<dots> = ?K ! (length ?K - Suc (i - card R))"
        using lt by (simp add: rev_nth)
      also have "length ?K - Suc (i - card R) = ?m - i"
        using ks(3) False True by simp
      finally show ?thesis using c False True by simp
    next
      case gt: False
      then have ge: "\<not> i - card R < length ?K" using ks(3) by simp
      have "?kept ! (i - card R) = [Suc ?m..<h] ! (i - card R - length ?K)"
        using ge by (simp add: ks(2) nth_append)
      also have "\<dots> = Suc ?m + (i - card R - length ?K)"
        using ih gt ks(3) by (intro nth_upt) simp
      also have "\<dots> = i" using gt ks(3) by simp
      finally show ?thesis using c False gt by simp
    qed
  qed
qed

lemma remove_lines_compacted:
  assumes rect: "rect h w b0" and fin: "finite R" and ne: "R \<noteq> {}"
    and sub: "R \<subseteq> {first..<int h}" and first: "0 \<le> first"
    and buf: "\<forall>i<nat first. b0 ! i = replicate w 0"
  shows "remove_lines h w first R b0 = compacted w R b0"
proof (rule nth_equalityI)
  let ?m = "nat (Max R)"
  let ?K = "kept_below R ?m"
  have sub0: "R \<subseteq> {0..<int h}" using sub first by auto
  note rl = remove_lines_rows [OF rect fin ne sub first]
  note cp = compacted_rows [OF rect fin ne sub0]
  note ks = kept_split [OF fin ne sub0]
  show "length (remove_lines h w first R b0) = length (compacted w R b0)"
    using rl(1) cp(1) by simp
  fix i assume "i < length (remove_lines h w first R b0)"
  then have ih: "i < h" using rl(1) by simp
  have mR: "Max R \<in> R" using fin ne by (rule Max_in)
  then have "first \<le> Max R" using sub by auto
  then have fm: "nat first \<le> ?m" by simp
  have c1: "1 \<le> card R" using fin ne by (simp add: Suc_le_eq card_gt_0_iff)
  have above: "?K ! (?m - i) < i" if "card R \<le> i" and "i \<le> ?m"
  proof -
    have lt: "?m - i < length ?K" using that ks(3) by simp
    from kept_below_bound [OF lt] that(2) show ?thesis by linarith
  qed
  have zero: "b0 ! (?K ! (?m - i)) = replicate w 0" if "card R \<le> i" and "i \<le> nat first"
  proof -
    have "?K ! (?m - i) < nat first" using above [OF that(1)] that(2) fm by simp
    then show ?thesis using buf by simp
  qed
  show "remove_lines h w first R b0 ! i = compacted w R b0 ! i"
  proof (cases "i \<le> nat first")
    case True
    then have l: "remove_lines h w first R b0 ! i = replicate w 0"
      using rl(2) [OF ih] buf first by (cases "i = nat first") auto
    show ?thesis
    proof (cases "i < card R")
      case c: True
      then show ?thesis using l cp(2) [OF ih] by simp
    next
      case False
      then show ?thesis using l cp(2) [OF ih] zero True fm by simp
    qed
  next
    case False
    then have fi: "first < int i" "i \<noteq> nat first" using first by auto
    show ?thesis
    proof (cases "i \<le> ?m")
      case True
      have "?m - i < length ?K \<longleftrightarrow> \<not> i < card R" using ks(3) True by auto
      then show ?thesis using rl(2) [OF ih] cp(2) [OF ih] fi True by (simp add: pulled_def)
    next
      case gt: False
      then have "\<not> i < card R" using ks(3) by simp
      then show ?thesis using rl(2) [OF ih] cp(2) [OF ih] fi gt by simp
    qed
  qed
qed

lemma try_remove_line_board:
  assumes "lines_to_remove s \<noteq> {}"
  shows "board (try_remove_line s) =
     remove_lines (nat (board_height s)) (nat (width s)) invisible_lines (lines_to_remove s) (board s)"
  using assms by (simp add: try_remove_line_def remove_lines_def clear_line_def Let_def board_height_def)

lemma try_remove_line_cc_board:
  assumes "lines_to_remove_cc s \<noteq> {}"
  shows "board_cc (try_remove_line_cc s) =
     remove_lines (nat (height_cc s)) (nat (width_cc s)) 0 (lines_to_remove_cc s) (board_cc s)"
  using assms by (simp add: try_remove_line_cc_def remove_lines_def clear_line_cc_def Let_def)

lemma lines_to_remove_cc_eq:
  "lines_to_remove_cc s =
     {i. fst (location_cc (curr_piece_cc s)) + y_min (get_extent_cc (curr_piece_cc s)) \<le> i \<and>
         i \<le> fst (location_cc (curr_piece_cc s)) + y_max (get_extent_cc (curr_piece_cc s)) \<and>
         list_all (\<lambda>c. c \<noteq> 0) (board_cc s ! nat i)}"
  by (auto simp: lines_to_remove_cc_def Let_def fold_insert_if)

lemma lines_to_remove_cc_finite [simp]: "finite (lines_to_remove_cc s)"
proof -
  have "lines_to_remove_cc s \<subseteq>
      {fst (location_cc (curr_piece_cc s)) + y_min (get_extent_cc (curr_piece_cc s)) ..
       fst (location_cc (curr_piece_cc s)) + y_max (get_extent_cc (curr_piece_cc s))}"
    by (auto simp: lines_to_remove_cc_eq)
  then show ?thesis by (rule finite_subset) simp
qed

lemma extent_rows_on_board:
  assumes "sh \<noteq> []"
    and "\<forall>c\<in>set (map (block_add loc) sh). 0 \<le> fst c \<and> fst c < hh"
  shows "0 \<le> fst loc + y_min (shape_extent sh)" and "fst loc + y_max (shape_extent sh) < hh"
proof -
  from shape_extent_attained [OF assms(1)]
  obtain b1 b2 where b1: "b1 \<in> set sh" "y_min (shape_extent sh) = fst b1"
    and b2: "b2 \<in> set sh" "y_max (shape_extent sh) = fst b2"
    by auto
  have "block_add loc b1 \<in> set (map (block_add loc) sh)"
    and "block_add loc b2 \<in> set (map (block_add loc) sh)"
    using b1(1) b2(1) by simp_all
  then have "0 \<le> fst (block_add loc b1)" and "fst (block_add loc b2) < hh"
    using assms(2) by blast+
  then show "0 \<le> fst loc + y_min (shape_extent sh)" and "fst loc + y_max (shape_extent sh) < hh"
    by (simp_all add: block_add_def b1(2) b2(2))
qed

lemma lines_to_remove_cc_range:
  assumes "state_ok_cc s"
  shows "lines_to_remove_cc s \<subseteq> {0..<int (nat (height_cc s))}"
proof -
  have ne: "shape_cc (curr_piece_cc s) \<noteq> []" using assms by (simp add: state_ok_cc_def)
  have "\<forall>c\<in>set (map (block_add (location_cc (curr_piece_cc s))) (shape_cc (curr_piece_cc s))).
      0 \<le> fst c \<and> fst c < height_cc s"
    using assms
    by (simp add: state_ok_cc_def list_all_iff piece_cells_cc_def check_boundary_cc_def Let_def)
  from extent_rows_on_board [OF ne this] show ?thesis
    by (auto simp: lines_to_remove_cc_eq get_extent_cc_def)
qed

lemma lines_to_remove_range:
  assumes "state_ok s"
  shows "lines_to_remove s \<subseteq> {0..<int (nat (board_height s))}"
proof -
  have ne: "get_shape (curr_piece s) \<noteq> []"
    using assms by (simp add: state_ok_def get_shape_nonempty)
  have "\<forall>c\<in>set (map (block_add (location (curr_piece s))) (get_shape (curr_piece s))).
      0 \<le> fst c \<and> fst c < board_height s"
    using assms
    by (simp add: state_ok_def list_all_iff piece_cells_def check_boundary_def Let_def)
  from extent_rows_on_board [OF ne this] show ?thesis
    by (auto simp: lines_to_remove_eq get_extent_def)
qed

text \<open>
  In tetris.cc removing lines is exact for every board and every set of rows: the rows
  to remove are gone, the others keep their order, and that many zero rows are on top.
\<close>

theorem remove_lines_tetris_cc:
  assumes "rect h w b" and "finite R" and "R \<noteq> {}" and "R \<subseteq> {0..<int h}"
  shows "remove_lines h w 0 R b = compacted w R b"
  using assms by (intro remove_lines_compacted) simp_all

theorem try_remove_line_cc_compacts:
  assumes "state_ok_cc s" and "lines_to_remove_cc s \<noteq> {}"
  shows "board_cc (try_remove_line_cc s) =
     compacted (nat (width_cc s)) (lines_to_remove_cc s) (board_cc s)"
proof -
  have "rect (nat (height_cc s)) (nat (width_cc s)) (board_cc s)"
    using assms(1) by (simp add: state_ok_cc_def board_ok_rect_cc)
  then have "remove_lines (nat (height_cc s)) (nat (width_cc s)) 0 (lines_to_remove_cc s) (board_cc s) =
      compacted (nat (width_cc s)) (lines_to_remove_cc s) (board_cc s)"
    using assms(2) lines_to_remove_cc_range [OF assms(1)]
    by (intro remove_lines_tetris_cc) simp_all
  then show ?thesis by (simp add: try_remove_line_cc_board [OF assms(2)])
qed

text \<open>
  In the engine with invisible rows removing lines is exact as long as these rows are
  empty.
\<close>

theorem try_remove_line_compacts_below_empty_rows:
  assumes ok: "state_ok s" and ne: "lines_to_remove s \<noteq> {}"
    and buf: "\<forall>i<nat invisible_lines. board s ! i = replicate (nat (width s)) 0"
  shows "board (try_remove_line s) =
     compacted (nat (width s)) (lines_to_remove s) (board s)"
proof -
  have rect: "rect (nat (board_height s)) (nat (width s)) (board s)"
    using ok by (simp add: state_ok_def board_ok_rect)
  have w: "0 < width s"
  proof -
    have "get_shape (curr_piece s) \<noteq> []" using ok by (simp add: state_ok_def get_shape_nonempty)
    then have "piece_cells (curr_piece s) \<noteq> []" by (simp add: piece_cells_def)
    then obtain c where "c \<in> set (piece_cells (curr_piece s))"
      by (meson last_in_set)
    then have "check_boundary s c 0 0" using ok by (simp add: state_ok_def list_all_iff)
    then show ?thesis by (simp add: check_boundary_def Let_def)
  qed
  have sub: "lines_to_remove s \<subseteq> {invisible_lines..<int (nat (board_height s))}"
  proof
    fix r assume r: "r \<in> lines_to_remove s"
    then have r0: "0 \<le> r" "r < int (nat (board_height s))"
      using lines_to_remove_range [OF ok] by auto
    have full: "list_all (\<lambda>c. c \<noteq> 0) (board s ! nat r)" using r by (simp add: lines_to_remove_eq)
    have "\<not> nat r < nat invisible_lines"
    proof
      assume "nat r < nat invisible_lines"
      then have "board s ! nat r = replicate (nat (width s)) 0" using buf by simp
      then show False using full w by (cases "nat (width s)") simp_all
    qed
    then show "r \<in> {invisible_lines..<int (nat (board_height s))}"
      using r0 by (simp add: invisible_lines_def)
  qed
  have "remove_lines (nat (board_height s)) (nat (width s)) invisible_lines (lines_to_remove s)
      (board s) = compacted (nat (width s)) (lines_to_remove s) (board s)"
    using rect _ ne sub _ buf by (rule remove_lines_compacted) (simp_all add: invisible_lines_def)
  then show ?thesis by (simp add: try_remove_line_board [OF ne])
qed

section \<open>The claims\<close>

text \<open>
  Claim C1. The claim fails in the engine with invisible rows, because the loop of
  \<open>try_remove_line\<close> reads rows from row 0 on but writes none above row
  \<open>invisible_lines_\<close>. In a state of the running game: the lying I piece spawned on
  the stack is moved one column to the left and turned upright (keys \<open>a\<close> and
  \<open>w\<close>), which puts two of its blocks into the invisible rows; it cannot fall, so the
  tick that is due removes lines, and row 3 is full. Removing it should leave the blocks
  of the piece in rows 1, 2 and 3 and row 0 empty; \<open>try_remove_line\<close> leaves them in
  rows 0, 1 and 3 and row 2 empty. On the board of ten rows with full rows 2, 5 and 7 the
  same code keeps rows 0 and 1 where they were instead of clearing them, where the code
  of tetris.cc, whose loop goes up to row 1, removes the rows as they should be.
\<close>

theorem try_remove_line_keeps_invisible_rows:
  "state_ok spawned_on_stack
   \<and> (case key_pressed CHR ''a'' spawned_on_stack of
         None \<Rightarrow> None | Some s \<Rightarrow> key_pressed CHR ''w'' s) = Some wedged_I
   \<and> state_ok wedged_I
   \<and> \<not> fst (move_piece 1 0 wedged_I)
   \<and> tick draws_I (wedged_I\<lparr>tick_cnt := 49\<rparr>) = new_piece draws_I (try_remove_line wedged_I)
   \<and> lines_to_remove wedged_I = {3}
   \<and> take 4 (board wedged_I) =
       [[0, 0, 0, 0, 3, 0, 0, 0, 0, 0], [0, 0, 0, 0, 3, 0, 0, 0, 0, 0],
        [0, 0, 0, 0, 3, 0, 0, 0, 0, 0], [5, 5, 5, 5, 3, 5, 5, 5, 5, 5]]
   \<and> take 4 (board (try_remove_line wedged_I)) =
       [[0, 0, 0, 0, 3, 0, 0, 0, 0, 0], [0, 0, 0, 0, 3, 0, 0, 0, 0, 0],
        [0, 0, 0, 0, 0, 0, 0, 0, 0, 0], [0, 0, 0, 0, 3, 0, 0, 0, 0, 0]]
   \<and> take 4 (compacted 10 {3} (board wedged_I)) =
       [[0, 0, 0, 0, 0, 0, 0, 0, 0, 0], [0, 0, 0, 0, 3, 0, 0, 0, 0, 0],
        [0, 0, 0, 0, 3, 0, 0, 0, 0, 0], [0, 0, 0, 0, 3, 0, 0, 0, 0, 0]]
   \<and> board (try_remove_line wedged_I) \<noteq> compacted 10 {3} (board wedged_I)
   \<and> remove_lines 10 2 invisible_lines {2, 5, 7} ten_rows =
       [[0, 1], [1, 0], [0, 0], [0, 1], [1, 0], [0, 3], [4, 0], [0, 6], [8, 0], [0, 9]]
   \<and> compacted 2 {2, 5, 7} ten_rows =
       [[0, 0], [0, 0], [0, 0], [0, 1], [1, 0], [0, 3], [4, 0], [0, 6], [8, 0], [0, 9]]
   \<and> remove_lines 10 2 0 {2, 5, 7} ten_rows = compacted 2 {2, 5, 7} ten_rows"
  by code_simp

text \<open>
  Claim C2, as the code has it. In a state of the running game the key \<open>s\<close> moves the
  piece down row by row until a move fails, and sets the tick counter to 0. In the engine
  with rotation states that is all: the state it leaves is the one in which the move
  failed, with the counter at 0. Removing lines and spawning are what a tick does when
  it is due in that state. In tetris.cc the key itself goes on with exactly what a due
  tick does in that state: the move fails, lines are removed, the counter is 0 and the
  next piece is spawned.
\<close>

theorem hard_drop_falls_until_blocked:
  "(state_ok s \<longrightarrow>
      (\<exists>n. (\<forall>k<n. fst (move_piece 1 0 ((fall ^^ k) s))) \<and>
           \<not> fst (move_piece 1 0 ((fall ^^ n) s)) \<and>
           hard_drop s = Some (((fall ^^ n) s)\<lparr>tick_cnt := 0\<rparr>) \<and>
           tick r (((fall ^^ n) s)\<lparr>tick_cnt := move_ticks - 1\<rparr>) =
             new_piece r (try_remove_line (((fall ^^ n) s)\<lparr>tick_cnt := 0\<rparr>))))
   \<and> (state_ok_cc sc \<longrightarrow>
      (\<exists>n. (\<forall>k<n. fst (move_piece_cc 1 0 ((fall_cc ^^ k) sc))) \<and>
           \<not> fst (move_piece_cc 1 0 ((fall_cc ^^ n) sc)) \<and>
           hard_drop_cc rc sc = Some (tick_cc rc (((fall_cc ^^ n) sc)\<lparr>tick_cnt_cc := move_ticks - 1\<rparr>)) \<and>
           tick_cc rc (((fall_cc ^^ n) sc)\<lparr>tick_cnt_cc := move_ticks - 1\<rparr>) =
             new_piece_cc rc (try_remove_line_cc (((fall_cc ^^ n) sc)\<lparr>tick_cnt_cc := 0\<rparr>))))"
proof (intro conjI impI)
  assume ok: "state_ok s"
  from hard_drop_eq [OF ok] obtain n where n: "\<forall>k<n. fst (move_piece 1 0 ((fall ^^ k) s))"
    "\<not> fst (move_piece 1 0 ((fall ^^ n) s))"
    "hard_drop s = Some (((fall ^^ n) s)\<lparr>tick_cnt := 0\<rparr>)"
    by blast
  have t: "tick r (((fall ^^ n) s)\<lparr>tick_cnt := move_ticks - 1\<rparr>) =
      new_piece r (try_remove_line (((fall ^^ n) s)\<lparr>tick_cnt := 0\<rparr>))"
    using funpow_fall_state_ok [OF ok] n(2) by (rule tick_after_drop)
  show "\<exists>n. (\<forall>k<n. fst (move_piece 1 0 ((fall ^^ k) s))) \<and>
           \<not> fst (move_piece 1 0 ((fall ^^ n) s)) \<and>
           hard_drop s = Some (((fall ^^ n) s)\<lparr>tick_cnt := 0\<rparr>) \<and>
           tick r (((fall ^^ n) s)\<lparr>tick_cnt := move_ticks - 1\<rparr>) =
             new_piece r (try_remove_line (((fall ^^ n) s)\<lparr>tick_cnt := 0\<rparr>))"
  proof (intro exI conjI)
    show "\<forall>k<n. fst (move_piece 1 0 ((fall ^^ k) s))" by (rule n(1))
    show "\<not> fst (move_piece 1 0 ((fall ^^ n) s))" by (rule n(2))
    show "hard_drop s = Some (((fall ^^ n) s)\<lparr>tick_cnt := 0\<rparr>)" by (rule n(3))
    show "tick r (((fall ^^ n) s)\<lparr>tick_cnt := move_ticks - 1\<rparr>) =
      new_piece r (try_remove_line (((fall ^^ n) s)\<lparr>tick_cnt := 0\<rparr>))" by (rule t)
  qed
next
  assume ok: "state_ok_cc sc"
  from hard_drop_cc_eq [OF ok, of rc] obtain n where
    n: "\<forall>k<n. fst (move_piece_cc 1 0 ((fall_cc ^^ k) sc))"
    "\<not> fst (move_piece_cc 1 0 ((fall_cc ^^ n) sc))"
    "hard_drop_cc rc sc =
       Some (new_piece_cc rc (try_remove_line_cc (((fall_cc ^^ n) sc)\<lparr>tick_cnt_cc := 0\<rparr>)))"
    by blast
  have t: "tick_cc rc (((fall_cc ^^ n) sc)\<lparr>tick_cnt_cc := move_ticks - 1\<rparr>) =
      new_piece_cc rc (try_remove_line_cc (((fall_cc ^^ n) sc)\<lparr>tick_cnt_cc := 0\<rparr>))"
    using funpow_fall_state_ok_cc [OF ok] n(2) by (rule tick_cc_after_drop)
  show "\<exists>n. (\<forall>k<n. fst (move_piece_cc 1 0 ((fall_cc ^^ k) sc))) \<and>
           \<not> fst (move_piece_cc 1 0 ((fall_cc ^^ n) sc)) \<and>
           hard_drop_cc rc sc = Some (tick_cc rc (((fall_cc ^^ n) sc)\<lparr>tick_cnt_cc := move_ticks - 1\<rparr>)) \<and>
           tick_cc rc (((fall_cc ^^ n) sc)\<lparr>tick_cnt_cc := move_ticks - 1\<rparr>) =
             new_piece_cc rc (try_remove_line_cc (((fall_cc ^^ n) sc)\<lparr>tick_cnt_cc := 0\<rparr>))"
  proof (intro exI conjI)
    show "\<forall>k<n. fst (move_piece_cc 1 0 ((fall_cc ^^ k) sc))" by (rule n(1))
    show "\<not> fst (move_piece_cc 1 0 ((fall_cc ^^ n) sc))" by (rule n(2))
    show "hard_drop_cc rc sc =
        Some (tick_cc rc (((fall_cc ^^ n) sc)\<lparr>tick_cnt_cc := move_ticks - 1\<rparr>))"
      unfolding t by (rule n(3))
    show "tick_cc rc (((fall_cc ^^ n) sc)\<lparr>tick_cnt_cc := move_ticks - 1\<rparr>) =
      new_piece_cc rc (try_remove_line_cc (((fall_cc ^^ n) sc)\<lparr>tick_cnt_cc := 0\<rparr>))" by (rule t)
  qed
qed

theorem hard_drop_falls_until_blocked_witness:
  "state_ok falling_O
   \<and> (\<exists>n. (\<forall>k<n. fst (move_piece 1 0 ((fall ^^ k) falling_O))) \<and>
           \<not> fst (move_piece 1 0 ((fall ^^ n) falling_O)) \<and>
           hard_drop falling_O = Some (((fall ^^ n) falling_O)\<lparr>tick_cnt := 0\<rparr>) \<and>
           tick draws_I (((fall ^^ n) falling_O)\<lparr>tick_cnt := move_ticks - 1\<rparr>) =
             new_piece draws_I (try_remove_line (((fall ^^ n) falling_O)\<lparr>tick_cnt := 0\<rparr>)))
   \<and> hard_drop falling_O = Some landed_O
   \<and> state_ok_cc spawned_cc
   \<and> (\<exists>n. (\<forall>k<n. fst (move_piece_cc 1 0 ((fall_cc ^^ k) spawned_cc))) \<and>
           \<not> fst (move_piece_cc 1 0 ((fall_cc ^^ n) spawned_cc)) \<and>
           hard_drop_cc draws_cc spawned_cc =
             Some (tick_cc draws_cc (((fall_cc ^^ n) spawned_cc)\<lparr>tick_cnt_cc := move_ticks - 1\<rparr>)) \<and>
           tick_cc draws_cc (((fall_cc ^^ n) spawned_cc)\<lparr>tick_cnt_cc := move_ticks - 1\<rparr>) =
             new_piece_cc draws_cc
               (try_remove_line_cc (((fall_cc ^^ n) spawned_cc)\<lparr>tick_cnt_cc := 0\<rparr>)))"
proof -
  have ok1: "state_ok falling_O" by code_simp
  have ok2: "state_ok_cc spawned_cc" by code_simp
  have d: "hard_drop falling_O = Some landed_O" by code_simp
  note t = hard_drop_falls_until_blocked [of falling_O draws_I spawned_cc draws_cc]
  show ?thesis
    by (intro conjI ok1 ok2 d t [THEN conjunct1, THEN mp, OF ok1] t [THEN conjunct2, THEN mp, OF ok2])
qed

text \<open>
  The claim as the specification states it fails in the engine with rotation states.
  An O piece is dropped into the gap of the bottom row: after the key \<open>s\<close> the piece
  is still the current piece, the full row 21 is still on the board and the score is
  still 0, while the step a failed tick takes next, \<open>try_remove_line\<close>, would remove
  the row and make the score 1.
\<close>

theorem hard_drop_counterexample:
  "state_ok falling_O
   \<and> hard_drop falling_O = Some landed_O
   \<and> curr_piece landed_O = \<lparr>shape = 1, location = (20, 8), rotation = 0, color = 4\<rparr>
   \<and> board landed_O ! 21 = [3, 3, 3, 3, 3, 3, 3, 3, 4, 4]
   \<and> lines_to_remove landed_O = {21}
   \<and> score landed_O = 0
   \<and> score (try_remove_line landed_O) = 1
   \<and> board (try_remove_line landed_O) ! 21 = [0, 0, 0, 0, 0, 0, 0, 0, 4, 4]"
  by code_simp

text \<open>
  Claim C3. In a state of the running game, when \<open>move_piece\<close> (for any offsets) or
  \<open>rotate_piece\<close> (for either direction) returns \<open>false\<close>, the state after the
  call is the state before it: the board, the anchor, the rotation index and the colour of
  the piece, and everything else.
\<close>

theorem failed_move_or_rotation_unchanged:
  assumes "state_ok s"
  shows "(\<not> fst (move_piece y x s) \<longrightarrow> snd (move_piece y x s) = s)
       \<and> (\<not> fst (rotate_piece ccw s) \<longrightarrow> snd (rotate_piece ccw s) = s)"
  using move_piece_failure [OF assms] rotate_piece_failure [OF assms] by blast

theorem failed_move_or_rotation_unchanged_witness:
  "state_ok at_left_wall
   \<and> \<not> fst (move_piece 0 (- 1) at_left_wall)
   \<and> snd (move_piece 0 (- 1) at_left_wall) = at_left_wall
   \<and> \<not> fst (rotate_piece False at_left_wall)
   \<and> snd (rotate_piece False at_left_wall) = at_left_wall"
proof -
  have ok: "state_ok at_left_wall" by code_simp
  have m: "\<not> fst (move_piece 0 (- 1) at_left_wall)" by code_simp
  have r: "\<not> fst (rotate_piece False at_left_wall)" by code_simp
  show ?thesis
    using failed_move_or_rotation_unchanged [OF ok, of 0 "- 1" False] ok m r by blast
qed




text \<open>
  Claim C5, as the code has it. Whenever \<open>new_piece\<close> places a piece, the topmost cell
  of the piece is in row \<open>invisible_lines_\<close>, the first visible row of the board, right
  below the invisible rows; it is not in row 0.
\<close>

theorem new_piece_top_row:
  assumes "new_piece r s = Inr s' \<or> new_piece r s = Inl (gameover, s')"
  shows "Min (fst ` set (piece_cells (curr_piece s'))) = invisible_lines"
  using piece_cells_top [OF new_piece_outcomes(1) [OF assms]] new_piece_outcomes(2) [OF assms]
  by simp

theorem new_piece_top_row_witness:
  "tetris_init 20 10 \<lparr>shape = 0, location = (0, 0), rotation = 0, color = 0\<rparr> draws_I = Inr spawned_I
   \<and> Min (fst ` set (piece_cells (curr_piece spawned_I))) = 2"
proof -
  have a: "new_piece draws_I
      \<lparr> height = 20, width = 10,
        board = replicate (nat (20 + invisible_lines)) (replicate (nat 10) 0),
        curr_piece = \<lparr>shape = 0, location = (0, 0), rotation = 0, color = 0\<rparr>,
        tick_cnt = 0, prev_shape = - 1, score = 0 \<rparr> = Inr spawned_I"
    by code_simp
  have b: "tetris_init 20 10 \<lparr>shape = 0, location = (0, 0), rotation = 0, color = 0\<rparr> draws_I
      = Inr spawned_I"
    unfolding tetris_init_def by (rule a)
  from new_piece_top_row [OF disjI1 [OF a]] b show ?thesis
    by (simp add: invisible_lines_def)
qed

text \<open>
  The claim as the specification states it fails: the constructor of the default game
  spawns a lying I piece whose cells are all in row 2, not in row 0.
\<close>

theorem new_piece_top_row_counterexample:
  "tetris_init 20 10 \<lparr>shape = 0, location = (0, 0), rotation = 0, color = 0\<rparr> draws_I = Inr spawned_I
   \<and> piece_cells (curr_piece spawned_I) = [(2, 3), (2, 4), (2, 5), (2, 6)]
   \<and> Min (fst ` set (piece_cells (curr_piece spawned_I))) \<noteq> 0"
  by code_simp

text \<open>
  Claim C6. Whenever \<open>new_piece\<close> places a piece, be it stamped on the board or found
  to overlap, every cell of the piece has its column in \<open>[0, width)\<close>; this holds for
  the engine with rotation states and for the engine of tetris.cc, whatever kind,
  rotation and column are drawn.
\<close>

theorem new_piece_columns:
  "(new_piece r s = Inr s' \<or> new_piece r s = Inl (gameover, s') \<longrightarrow>
      width s' = width s \<and>
      (\<forall>c\<in>set (piece_cells (curr_piece s')). 0 \<le> snd c \<and> snd c < width s))
   \<and> (new_piece_cc rc sc = Inr sc' \<or> new_piece_cc rc sc = Inl (gameover, sc') \<longrightarrow>
      width_cc sc' = width_cc sc \<and>
      (\<forall>c\<in>set (piece_cells_cc (curr_piece_cc sc')). 0 \<le> snd c \<and> snd c < width_cc sc))"
proof (intro conjI impI ballI)
  assume a: "new_piece r s = Inr s' \<or> new_piece r s = Inl (gameover, s')"
  show "width s' = width s" by (rule new_piece_outcomes(6) [OF a])
  fix c assume c: "c \<in> set (piece_cells (curr_piece s'))"
  show "0 \<le> snd c"
    using new_piece_outcomes(4) [OF a] piece_cells_extent(3) [OF c] by linarith
  show "snd c < width s"
    using new_piece_outcomes(5) [OF a] piece_cells_extent(4) [OF c] by linarith
next
  assume a: "new_piece_cc rc sc = Inr sc' \<or> new_piece_cc rc sc = Inl (gameover, sc')"
  show "width_cc sc' = width_cc sc" by (rule new_piece_cc_outcomes(3) [OF a])
  fix c assume c: "c \<in> set (piece_cells_cc (curr_piece_cc sc'))"
  show "0 \<le> snd c"
    using new_piece_cc_outcomes(1) [OF a] piece_cells_cc_extent(1) [OF c] by linarith
  show "snd c < width_cc sc"
    using new_piece_cc_outcomes(2) [OF a] piece_cells_cc_extent(2) [OF c] by linarith
qed

theorem new_piece_columns_witness:
  "new_piece draws_I spawned_I = Inl (gameover, spawned_I)
   \<and> list_all (\<lambda>c. 0 \<le> snd c \<and> snd c < 10) (piece_cells (curr_piece spawned_I))
   \<and> new_piece_cc draws_cc empty_cc = Inr spawned_cc
   \<and> list_all (\<lambda>c. 0 \<le> snd c \<and> snd c < 10) (piece_cells_cc (curr_piece_cc spawned_cc))"
proof -
  have a: "new_piece draws_I spawned_I = Inl (gameover, spawned_I)" by code_simp
  have b: "new_piece_cc draws_cc empty_cc = Inr spawned_cc" by code_simp
  have w: "width spawned_I = 10" "width_cc empty_cc = 10" by code_simp+
  from new_piece_columns [of draws_I spawned_I spawned_I draws_cc empty_cc spawned_cc] a b
  show ?thesis unfolding w list_all_iff by blast
qed

text \<open>
  Claim C7. \<open>new_piece\<close> throws \<open>gameover\<close> exactly when a cell of the piece it has
  just placed lies on a non-zero cell of the board: if it throws, there is such a cell
  and the board is the one it was given; if it returns, there is none. A tick and a round
  of the key loop end with \<open>gameover\<close> only when their call of \<open>new_piece\<close> throws it.
  The same holds in tetris.cc, where the key \<open>s\<close> calls \<open>new_piece\<close> as well.
\<close>

theorem gameover_only_from_spawn:
  "(new_piece r s = Inl (gameover, s') \<longrightarrow>
      board s' = board s \<and>
      (\<exists>c\<in>set (piece_cells (curr_piece s')). board_cell s c 0 0 \<noteq> 0))
   \<and> (new_piece r s = Inr s' \<longrightarrow>
      (\<forall>c\<in>set (piece_cells (curr_piece s')). board_cell s c 0 0 = 0))
   \<and> (tick r s = Inl (gameover, s') \<longrightarrow> (\<exists>s0. new_piece r s0 = Inl (gameover, s')))
   \<and> (loop_body r k s = Some (Inl (Some gameover, s')) \<longrightarrow>
      (\<exists>s0. new_piece r s0 = Inl (gameover, s')))
   \<and> (new_piece_cc rc sc = Inl (gameover, sc') \<longrightarrow>
      board_cc sc' = board_cc sc \<and>
      (\<exists>c\<in>set (piece_cells_cc (curr_piece_cc sc')). board_cell_cc sc c 0 0 \<noteq> 0))
   \<and> (new_piece_cc rc sc = Inr sc' \<longrightarrow>
      (\<forall>c\<in>set (piece_cells_cc (curr_piece_cc sc')). board_cell_cc sc c 0 0 = 0))
   \<and> (tick_cc rc sc = Inl (gameover, sc') \<longrightarrow>
      (\<exists>s0. new_piece_cc rc s0 = Inl (gameover, sc')))
   \<and> (hard_drop_cc rc sc = Some (Inl (gameover, sc')) \<longrightarrow>
      (\<exists>s0. new_piece_cc rc s0 = Inl (gameover, sc')))"
proof (intro conjI impI)
  assume a: "new_piece r s = Inl (gameover, s')"
  from new_piece_outcomes(10) [OF disjI2 [OF a] a]
  show "board s' = board s"
    and "\<exists>c\<in>set (piece_cells (curr_piece s')). board_cell s c 0 0 \<noteq> 0"
    by blast+
next
  assume a: "new_piece r s = Inr s'"
  from new_piece_outcomes(11) [OF disjI1 [OF a] a]
  show "\<forall>c\<in>set (piece_cells (curr_piece s')). board_cell s c 0 0 = 0" by blast
next
  assume "tick r s = Inl (gameover, s')"
  then show "\<exists>s0. new_piece r s0 = Inl (gameover, s')" by (rule tick_gameover)
next
  assume "loop_body r k s = Some (Inl (Some gameover, s'))"
  then show "\<exists>s0. new_piece r s0 = Inl (gameover, s')" by (rule loop_body_error)
next
  assume a: "new_piece_cc rc sc = Inl (gameover, sc')"
  from new_piece_cc_outcomes(5) [OF disjI2 [OF a] a]
  show "board_cc sc' = board_cc sc"
    and "\<exists>c\<in>set (piece_cells_cc (curr_piece_cc sc')). board_cell_cc sc c 0 0 \<noteq> 0"
    by blast+
next
  assume a: "new_piece_cc rc sc = Inr sc'"
  from new_piece_cc_outcomes(6) [OF disjI1 [OF a] a]
  show "\<forall>c\<in>set (piece_cells_cc (curr_piece_cc sc')). board_cell_cc sc c 0 0 = 0" .
next
  assume "tick_cc rc sc = Inl (gameover, sc')"
  then show "\<exists>s0. new_piece_cc rc s0 = Inl (gameover, sc')" by (rule tick_cc_gameover)
next
  assume "hard_drop_cc rc sc = Some (Inl (gameover, sc'))"
  then show "\<exists>s0. new_piece_cc rc s0 = Inl (gameover, sc')" by (rule hard_drop_cc_gameover)
qed

theorem gameover_only_from_spawn_witness:
  "new_piece draws_I spawned_I = Inl (gameover, spawned_I)
   \<and> list_ex (\<lambda>c. board_cell spawned_I c 0 0 \<noteq> 0) (piece_cells (curr_piece spawned_I))
   \<and> tick draws_I topped_out = Inl (gameover, topped_out\<lparr>tick_cnt := 0\<rparr>)
   \<and> loop_body draws_I None topped_out = Some (Inl (Some gameover, topped_out\<lparr>tick_cnt := 0\<rparr>))
   \<and> (\<exists>s0. new_piece draws_I s0 = Inl (gameover, topped_out\<lparr>tick_cnt := 0\<rparr>))
   \<and> new_piece_cc draws_cc empty_cc = Inr spawned_cc
   \<and> list_all (\<lambda>c. board_cell_cc empty_cc c 0 0 = 0) (piece_cells_cc (curr_piece_cc spawned_cc))
   \<and> new_piece_cc draws_cc spawned_cc = Inl (gameover, spawned_cc)
   \<and> list_ex (\<lambda>c. board_cell_cc spawned_cc c 0 0 \<noteq> 0)
       (piece_cells_cc (curr_piece_cc spawned_cc))"
proof -
  have a: "new_piece draws_I spawned_I = Inl (gameover, spawned_I)" by code_simp
  have b: "tick draws_I topped_out = Inl (gameover, topped_out\<lparr>tick_cnt := 0\<rparr>)" by code_simp
  have c: "loop_body draws_I None topped_out =
      Some (Inl (Some gameover, topped_out\<lparr>tick_cnt := 0\<rparr>))"
    by (simp add: loop_body_def b)
  have d: "new_piece_cc draws_cc empty_cc = Inr spawned_cc" by code_simp
  have e: "new_piece_cc draws_cc spawned_cc = Inl (gameover, spawned_cc)" by code_simp
  from gameover_only_from_spawn [of draws_I spawned_I spawned_I None draws_cc empty_cc spawned_cc]
    a d
  have 1: "\<exists>c\<in>set (piece_cells (curr_piece spawned_I)). board_cell spawned_I c 0 0 \<noteq> 0"
    and 2: "\<forall>c\<in>set (piece_cells_cc (curr_piece_cc spawned_cc)). board_cell_cc empty_cc c 0 0 = 0"
    by blast+
  from gameover_only_from_spawn [of draws_I topped_out "topped_out\<lparr>tick_cnt := 0\<rparr>" None
      draws_cc spawned_cc spawned_cc] b e
  have 3: "\<exists>s0. new_piece draws_I s0 = Inl (gameover, topped_out\<lparr>tick_cnt := 0\<rparr>)"
    and 4: "\<exists>c\<in>set (piece_cells_cc (curr_piece_cc spawned_cc)). board_cell_cc spawned_cc c 0 0 \<noteq> 0"
    by blast+
  show ?thesis unfolding list_all_iff list_ex_iff using a b c d e 1 2 3 4 by blast
qed



text \<open>
  Claim C9. In a state of the running game \<open>rotate_piece\<close> tests the cells of the
  rotated state at the anchor the piece has, and nothing else: it fails exactly when one
  of these cells is outside the board or holds a non-zero colour and is not one of the
  cells of the piece itself. When it succeeds, the piece has the new rotation index, the
  same anchor, and covers exactly the tested cells; when it fails, nothing has changed.
  The same holds in tetris.cc, where a rotation turns the blocks of the piece instead of
  stepping an index.
\<close>

theorem rotate_piece_no_wall_kick:
  "(state_ok s \<longrightarrow>
      (\<not> fst (rotate_piece ccw s) \<longleftrightarrow>
         (\<exists>c\<in>set (rotated_cells ccw (curr_piece s)).
            \<not> check_boundary s c 0 0 \<or>
            (board_cell s c 0 0 \<noteq> 0 \<and> c \<notin> set (piece_cells (curr_piece s)))))
      \<and> (fst (rotate_piece ccw s) \<longrightarrow>
           curr_piece (snd (rotate_piece ccw s)) =
             (curr_piece s)\<lparr>rotation := get_rotated ccw (curr_piece s)\<rparr>
           \<and> location (curr_piece (snd (rotate_piece ccw s))) = location (curr_piece s)
           \<and> piece_cells (curr_piece (snd (rotate_piece ccw s))) =
               rotated_cells ccw (curr_piece s))
      \<and> (\<not> fst (rotate_piece ccw s) \<longrightarrow> snd (rotate_piece ccw s) = s))
   \<and> (state_ok_cc sc \<longrightarrow>
      (\<not> fst (rotate_piece_cc cnt sc) \<longleftrightarrow>
         (\<exists>c\<in>set (rotated_cells_cc cnt (curr_piece_cc sc)).
            \<not> check_boundary_cc sc c 0 0 \<or>
            (board_cell_cc sc c 0 0 \<noteq> 0 \<and> c \<notin> set (piece_cells_cc (curr_piece_cc sc)))))
      \<and> (fst (rotate_piece_cc cnt sc) \<longrightarrow>
           curr_piece_cc (snd (rotate_piece_cc cnt sc)) = piece_rotate_cc cnt (curr_piece_cc sc)
           \<and> location_cc (curr_piece_cc (snd (rotate_piece_cc cnt sc))) =
               location_cc (curr_piece_cc sc)
           \<and> piece_cells_cc (curr_piece_cc (snd (rotate_piece_cc cnt sc))) =
               rotated_cells_cc cnt (curr_piece_cc sc))
      \<and> (\<not> fst (rotate_piece_cc cnt sc) \<longrightarrow> snd (rotate_piece_cc cnt sc) = sc))"
proof (intro conjI impI)
  assume assms: "state_ok s"
  show "\<not> fst (rotate_piece ccw s) \<longleftrightarrow>
            (\<exists>c\<in>set (rotated_cells ccw (curr_piece s)).
               \<not> check_boundary s c 0 0 \<or>
               (board_cell s c 0 0 \<noteq> 0 \<and> c \<notin> set (piece_cells (curr_piece s))))"
    unfolding rotate_piece_fst [OF assms] by blast
  {
    assume ok: "fst (rotate_piece ccw s)"
    show "curr_piece (snd (rotate_piece ccw s)) =
        (curr_piece s)\<lparr>rotation := get_rotated ccw (curr_piece s)\<rparr>"
      by (simp add: rotate_piece_success [OF assms ok] piece_rotate_def)
    show "location (curr_piece (snd (rotate_piece ccw s))) = location (curr_piece s)"
      by (simp add: rotate_piece_success [OF assms ok] piece_rotate_def)
    show "piece_cells (curr_piece (snd (rotate_piece ccw s))) = rotated_cells ccw (curr_piece s)"
      by (simp add: rotate_piece_success [OF assms ok] piece_cells_rotated)
  }
  {
    assume "\<not> fst (rotate_piece ccw s)"
    then show "snd (rotate_piece ccw s) = s" by (rule rotate_piece_failure [OF assms])
  }
next
  assume assms: "state_ok_cc sc"
  show "\<not> fst (rotate_piece_cc cnt sc) \<longleftrightarrow>
         (\<exists>c\<in>set (rotated_cells_cc cnt (curr_piece_cc sc)).
            \<not> check_boundary_cc sc c 0 0 \<or>
            (board_cell_cc sc c 0 0 \<noteq> 0 \<and> c \<notin> set (piece_cells_cc (curr_piece_cc sc))))"
    unfolding rotate_piece_fst_cc [OF assms] by blast
  {
    assume ok: "fst (rotate_piece_cc cnt sc)"
    show "curr_piece_cc (snd (rotate_piece_cc cnt sc)) = piece_rotate_cc cnt (curr_piece_cc sc)"
      by (simp add: rotate_piece_success_cc [OF assms ok])
    show "location_cc (curr_piece_cc (snd (rotate_piece_cc cnt sc))) =
        location_cc (curr_piece_cc sc)"
      by (simp add: rotate_piece_success_cc [OF assms ok] piece_rotate_cc_def)
    show "piece_cells_cc (curr_piece_cc (snd (rotate_piece_cc cnt sc))) =
        rotated_cells_cc cnt (curr_piece_cc sc)"
      by (simp add: rotate_piece_success_cc [OF assms ok] piece_cells_rotated_cc)
  }
  {
    assume "\<not> fst (rotate_piece_cc cnt sc)"
    then show "snd (rotate_piece_cc cnt sc) = sc" by (rule rotate_piece_failure_cc [OF assms])
  }
qed

theorem rotate_piece_no_wall_kick_witness:
  "state_ok at_left_wall
   \<and> \<not> fst (rotate_piece False at_left_wall)
   \<and> (4, - 2) \<in> set (rotated_cells False (curr_piece at_left_wall))
   \<and> \<not> check_boundary at_left_wall (4, - 2) 0 0
   \<and> snd (rotate_piece False at_left_wall) = at_left_wall
   \<and> state_ok spawned_I
   \<and> fst (rotate_piece False spawned_I)
   \<and> curr_piece (snd (rotate_piece False spawned_I)) =
       \<lparr>shape = 0, location = (2, 5), rotation = 1, color = 3\<rparr>
   \<and> piece_cells (curr_piece (snd (rotate_piece False spawned_I))) =
       [(0, 5), (1, 5), (2, 5), (3, 5)]
   \<and> state_ok_cc at_left_wall_cc
   \<and> \<not> fst (rotate_piece_cc 1 at_left_wall_cc)
   \<and> snd (rotate_piece_cc 1 at_left_wall_cc) = at_left_wall_cc
   \<and> state_ok_cc spawned_cc
   \<and> fst (rotate_piece_cc 1 spawned_cc)
   \<and> piece_cells_cc (curr_piece_cc (snd (rotate_piece_cc 1 spawned_cc))) =
       [(0, 8), (1, 8), (0, 7), (1, 7)]"
proof -
  have ok1: "state_ok at_left_wall" by code_simp
  have ok2: "state_ok spawned_I" by code_simp
  have ok3: "state_ok_cc at_left_wall_cc" by code_simp
  have ok4: "state_ok_cc spawned_cc" by code_simp
  have f1: "\<not> fst (rotate_piece False at_left_wall)" by code_simp
  have f2: "fst (rotate_piece False spawned_I)" by code_simp
  have f3: "\<not> fst (rotate_piece_cc 1 at_left_wall_cc)" by code_simp
  have f4: "fst (rotate_piece_cc 1 spawned_cc)" by code_simp
  have c1: "(4, - 2) \<in> set (rotated_cells False (curr_piece at_left_wall))" by code_simp
  have c2: "\<not> check_boundary at_left_wall (4, - 2) 0 0" by code_simp
  have p2: "(curr_piece spawned_I)\<lparr>rotation := get_rotated False (curr_piece spawned_I)\<rparr> =
      \<lparr>shape = 0, location = (2, 5), rotation = 1, color = 3\<rparr>" by code_simp
  have r2: "rotated_cells False (curr_piece spawned_I) = [(0, 5), (1, 5), (2, 5), (3, 5)]"
    by code_simp
  have r4: "rotated_cells_cc 1 (curr_piece_cc spawned_cc) = [(0, 8), (1, 8), (0, 7), (1, 7)]"
    by code_simp
  note t1 = rotate_piece_no_wall_kick [of at_left_wall False at_left_wall_cc 1]
  note t2 = rotate_piece_no_wall_kick [of spawned_I False spawned_cc 1]
  from t2 [THEN conjunct1, THEN mp, OF ok2] f2
  have a: "curr_piece (snd (rotate_piece False spawned_I)) =
      (curr_piece spawned_I)\<lparr>rotation := get_rotated False (curr_piece spawned_I)\<rparr>"
    and b: "piece_cells (curr_piece (snd (rotate_piece False spawned_I))) =
      rotated_cells False (curr_piece spawned_I)"
    by blast+
  from t1 [THEN conjunct1, THEN mp, OF ok1] f1
  have c: "snd (rotate_piece False at_left_wall) = at_left_wall" by blast
  from t1 [THEN conjunct2, THEN mp, OF ok3] f3
  have d: "snd (rotate_piece_cc 1 at_left_wall_cc) = at_left_wall_cc" by blast
  from t2 [THEN conjunct2, THEN mp, OF ok4] f4
  have e: "piece_cells_cc (curr_piece_cc (snd (rotate_piece_cc 1 spawned_cc))) =
      rotated_cells_cc 1 (curr_piece_cc spawned_cc)"
    by blast
  show ?thesis
    using ok1 f1 c1 c2 c ok2 f2 a [unfolded p2] b [unfolded r2] ok3 f3 d ok4 f4 e [unfolded r4]
    by blast
qed

text \<open>
  Claim C10. For a piece whose rotation index is a valid index into the rotation states
  of its kind, the index computed clockwise and then counter-clockwise is the original
  index, and so is the one computed counter-clockwise and then clockwise; the index
  computed in either direction is again a valid index for that kind.
\<close>

theorem get_rotated_round_trip:
  assumes "0 \<le> rotation p" and "rotation p < int (length (shapes ! shape p))"
  shows "get_rotated True (piece_rotate False p) = rotation p
       \<and> get_rotated False (piece_rotate True p) = rotation p
       \<and> 0 \<le> get_rotated ccw p
       \<and> get_rotated ccw p < int (length (shapes ! shape p))"
proof -
  have valid: "0 \<le> get_rotated c p \<and> get_rotated c p < int (length (shapes ! shape p))" for c
    by (rule get_rotated_valid [OF assms])
  have cw_ccw: "get_rotated True (piece_rotate False p) = rotation p"
    using get_rotated_mod [of "piece_rotate False p" True] valid [of False]
      rot_fwd_back [OF assms] get_rotated_mod [OF assms, of False]
    by (simp add: piece_rotate_def)
  have ccw_cw: "get_rotated False (piece_rotate True p) = rotation p"
    using get_rotated_mod [of "piece_rotate True p" False] valid [of True]
      rot_back_fwd [OF assms] get_rotated_mod [OF assms, of True]
    by (simp add: piece_rotate_def)
  show ?thesis using cw_ccw ccw_cw valid by blast
qed

theorem get_rotated_round_trip_witness:
  "get_rotated True (piece_rotate False \<lparr>shape = 0, location = (2, 4), rotation = 1, color = 3\<rparr>) = 1
   \<and> get_rotated False (piece_rotate True \<lparr>shape = 0, location = (2, 4), rotation = 1, color = 3\<rparr>) = 1
   \<and> 0 \<le> get_rotated True \<lparr>shape = 0, location = (2, 4), rotation = 1, color = 3\<rparr>
   \<and> get_rotated True \<lparr>shape = 0, location = (2, 4), rotation = 1, color = 3\<rparr> < 2"
proof -
  let ?p = "\<lparr>shape = 0, location = (2, 4), rotation = 1, color = 3\<rparr>"
  have h1: "0 \<le> rotation ?p" by simp
  have h2: "rotation ?p < int (length (shapes ! shape ?p))" by (simp add: shapes_def)
  have len: "int (length (shapes ! shape ?p)) = 2" by (simp add: shapes_def)
  show ?thesis
    using get_rotated_round_trip [OF h1 h2, of True] len by simp
qed

end
